theory Spec2Isabelle
  imports Complex_Main "HOL-Library.Log_Nat"
begin

section \<open>Scan conversion and display simulation: the embedded program\<close>

text \<open>
  The repository holds three browser front ends: a plain page
  (\<^verbatim>\<open>DDA_Bresenham_Midpoint Circle Html/index.html\<close>), a React version of the same
  algorithm visualiser (\<^verbatim>\<open>part_001\<close>) and a React display-system simulator
  (\<^verbatim>\<open>part_000\<close>). The definitions below follow the JavaScript of those files.

  Every number of the rasterizers is a JavaScript number, that is an IEEE 754 binary64
  value: \<open>jsnum\<close> holds the finite values as rationals together with \<open>NaN\<close> and the two
  infinities, and every arithmetic operation rounds its exact result to the nearest
  binary64 value (\<open>round64\<close>). The sign of zero is not modelled. Counters that the
  simulators only use as array indices and list positions are natural numbers.

  A loop of the source that JavaScript does not bound is a partial function into
  \<open>option\<close>: \<open>None\<close> stands for a call that does not return its list. The capacity of
  a JavaScript array is not modelled, so a list may have any length.

  Names follow the source. Where a field name of the source would capture a variable name
  of the algorithms (\<open>x0\<close>, \<open>x1\<close>, \<open>cx\<close>) or is already taken, it carries a prefix:
  \<open>px\<close>, \<open>coord_x0\<close>, \<open>line_x1\<close>, \<open>html_pixelData\<close>.
\<close>

subsection \<open>JavaScript numbers\<close>

datatype jsnum = Fin rat | NaN | PosInf | NegInf

text \<open>
  \<open>ilog2 q\<close> is the binary exponent of a positive rational: \<open>2\<^sup>e \<le> q < 2\<^sup>e\<^sup>+\<^sup>1\<close>. It is
  computed from the bit lengths of numerator and denominator.
\<close>

definition ilog2 :: "rat \<Rightarrow> int" where
  "ilog2 q =
     (let a = fst (quotient_of q); b = snd (quotient_of q); e0 = bitlen a - bitlen b
      in if 2 powi e0 \<le> q then e0 else e0 - 1)"

text \<open>Rounding to the nearest integer, a tie going to the even neighbour.\<close>

definition round_half_even :: "rat \<Rightarrow> int" where
  "round_half_even t =
     (let f = \<lfloor>t\<rfloor>; d = t - of_int f
      in if d < 1 / 2 then f else if d > 1 / 2 then f + 1 else if even f then f else f + 1)"

text \<open>
  Rounding of an exact result to binary64, in the default mode (to nearest, ties to
  even): 53 significant bits, so the spacing of the values around \<open>q\<close> is
  \<open>2\<^sup>e\<^sup>-\<^sup>5\<^sup>2\<close> with \<open>e\<close> the exponent of \<open>q\<close>; below the normal range the spacing is
  \<open>2\<^sup>-\<^sup>1\<^sup>0\<^sup>7\<^sup>4\<close>; a result that rounds to \<open>2\<^sup>1\<^sup>0\<^sup>2\<^sup>4\<close> or beyond is an infinity.
\<close>

definition round64 :: "rat \<Rightarrow> jsnum" where
  "round64 q =
     (if q = 0 then Fin 0
      else
        let e = ilog2 \<bar>q\<bar>;
            quantum = (if e < - 1022 then 2 powi (- 1074) else 2 powi (e - 52));
            m = round_half_even (q / quantum)
        in if e > 1023 \<or> (e = 1023 \<and> \<bar>m\<bar> = 2 ^ 53)
           then (if q > 0 then PosInf else NegInf)
           else Fin (of_int m * quantum))"

text \<open>
  The operators and library functions the code uses: \<^verbatim>\<open>isNaN\<close>, unary minus, \<open>+\<close>,
  \<open>-\<close>, \<open>*\<close>, \<open>/\<close>, \<^verbatim>\<open>Math.abs\<close>, \<open><\<close>, \<open>\<le>\<close>, \<open>>\<close>, \<open>\<ge>\<close>, \<open>===\<close> and
  \<^verbatim>\<open>Math.round\<close>, with the IEEE results for \<open>NaN\<close> and the infinities (\<open>x / 0\<close> takes
  the sign of \<open>x\<close>).
\<close>

definition isNaN :: "jsnum \<Rightarrow> bool" where
  "isNaN v = (case v of NaN \<Rightarrow> True | _ \<Rightarrow> False)"

fun js_neg :: "jsnum \<Rightarrow> jsnum" where
  "js_neg (Fin a) = Fin (- a)"
| "js_neg NaN = NaN"
| "js_neg PosInf = NegInf"
| "js_neg NegInf = PosInf"

fun js_add :: "jsnum \<Rightarrow> jsnum \<Rightarrow> jsnum" where
  "js_add NaN _ = NaN"
| "js_add _ NaN = NaN"
| "js_add (Fin a) (Fin b) = round64 (a + b)"
| "js_add PosInf NegInf = NaN"
| "js_add NegInf PosInf = NaN"
| "js_add PosInf _ = PosInf"
| "js_add NegInf _ = NegInf"
| "js_add (Fin a) PosInf = PosInf"
| "js_add (Fin a) NegInf = NegInf"

definition js_sub :: "jsnum \<Rightarrow> jsnum \<Rightarrow> jsnum" where
  "js_sub a b = js_add a (js_neg b)"

fun js_sgn :: "jsnum \<Rightarrow> int" where
  "js_sgn (Fin a) = (if a > 0 then 1 else if a < 0 then - 1 else 0)"
| "js_sgn NaN = 0"
| "js_sgn PosInf = 1"
| "js_sgn NegInf = - 1"

fun js_mul :: "jsnum \<Rightarrow> jsnum \<Rightarrow> jsnum" where
  "js_mul NaN _ = NaN"
| "js_mul _ NaN = NaN"
| "js_mul (Fin a) (Fin b) = round64 (a * b)"
| "js_mul a b =
     (if js_sgn a * js_sgn b = 0 then NaN
      else if js_sgn a * js_sgn b > 0 then PosInf else NegInf)"

fun js_div :: "jsnum \<Rightarrow> jsnum \<Rightarrow> jsnum" where
  "js_div NaN _ = NaN"
| "js_div _ NaN = NaN"
| "js_div (Fin a) (Fin b) =
     (if b = 0 then (if a = 0 then NaN else if a > 0 then PosInf else NegInf)
      else round64 (a / b))"
| "js_div (Fin a) _ = Fin 0"
| "js_div PosInf (Fin b) = (if b \<ge> 0 then PosInf else NegInf)"
| "js_div NegInf (Fin b) = (if b \<ge> 0 then NegInf else PosInf)"
| "js_div _ _ = NaN"

fun Math_abs :: "jsnum \<Rightarrow> jsnum" where
  "Math_abs (Fin a) = Fin \<bar>a\<bar>"
| "Math_abs NaN = NaN"
| "Math_abs _ = PosInf"

fun js_lt :: "jsnum \<Rightarrow> jsnum \<Rightarrow> bool" where
  "js_lt NaN _ = False"
| "js_lt _ NaN = False"
| "js_lt (Fin a) (Fin b) = (a < b)"
| "js_lt PosInf _ = False"
| "js_lt _ NegInf = False"
| "js_lt _ _ = True"

fun js_le :: "jsnum \<Rightarrow> jsnum \<Rightarrow> bool" where
  "js_le NaN _ = False"
| "js_le _ NaN = False"
| "js_le (Fin a) (Fin b) = (a \<le> b)"
| "js_le NegInf _ = True"
| "js_le _ PosInf = True"
| "js_le _ _ = False"

definition js_gt :: "jsnum \<Rightarrow> jsnum \<Rightarrow> bool" where
  "js_gt a b = js_lt b a"

definition js_ge :: "jsnum \<Rightarrow> jsnum \<Rightarrow> bool" where
  "js_ge a b = js_le b a"

definition js_eq :: "jsnum \<Rightarrow> jsnum \<Rightarrow> bool" where
  "js_eq a b = (\<not> isNaN a \<and> a = b)"

fun Math_round :: "jsnum \<Rightarrow> jsnum" where
  "Math_round (Fin a) = Fin (of_int \<lfloor>a + 1 / 2\<rfloor>)"
| "Math_round v = v"

text \<open>The JavaScript number of an integer.\<close>

definition js_int :: "int \<Rightarrow> jsnum" where
  "js_int n = Fin (of_int n)"

subsection \<open>Pixel records\<close>

text \<open>
  Every pixel record carries an \<open>info\<close> string built from a template; the model keeps
  the values the template interpolates instead of their decimal rendering.
\<close>

datatype step_info =
    DDAStep jsnum jsnum jsnum
  | BresenhamStep jsnum jsnum jsnum jsnum
  | CircleInitial jsnum jsnum jsnum
  | CircleStep jsnum jsnum jsnum jsnum

record pixel =
  px :: jsnum
  py :: jsnum
  info :: step_info

text \<open>A position as the code holds it, and a position with integer coordinates.\<close>

type_synonym jspoint = "jsnum \<times> jsnum"

type_synonym point = "int \<times> int"

subsection \<open>Bresenham's line (\<^verbatim>\<open>bresenhamLine\<close>, index.html 381-413 and \<^verbatim>\<open>part_001\<close> 164-197)\<close>

text \<open>
  The body of \<^verbatim>\<open>while (true)\<close>: push the pixel, leave at the end point, otherwise
  update \<open>err\<close>, \<open>x\<close>, \<open>y\<close> and \<open>i\<close>. The loop has no bound of its own.
\<close>

partial_function (option) bresenhamLine_loop ::
  "jsnum \<Rightarrow> jsnum \<Rightarrow> jsnum \<Rightarrow> jsnum \<Rightarrow> jsnum \<Rightarrow> jsnum \<Rightarrow> jsnum \<Rightarrow> jsnum \<Rightarrow> jsnum \<Rightarrow> jsnum
   \<Rightarrow> pixel list \<Rightarrow> pixel list option" where
  "bresenhamLine_loop x1 y1 dx dy sx sy x y err i pixels =
     (let pixels' = pixels @ [\<lparr>px = x, py = y, info = BresenhamStep i x y err\<rparr>] in
      if js_eq x x1 \<and> js_eq y y1 then Some pixels'
      else
        let e2 = js_mul (Fin 2) err;
            err' = (if js_gt e2 (js_neg dy) then js_sub err dy else err);
            x' = (if js_gt e2 (js_neg dy) then js_add x sx else x);
            err'' = (if js_lt e2 dx then js_add err' dx else err');
            y' = (if js_lt e2 dx then js_add y sy else y)
        in bresenhamLine_loop x1 y1 dx dy sx sy x' y' err'' (js_add i (Fin 1)) pixels')"

declare bresenhamLine_loop.simps [code]

definition bresenhamLine :: "jsnum \<Rightarrow> jsnum \<Rightarrow> jsnum \<Rightarrow> jsnum \<Rightarrow> pixel list option" where
  "bresenhamLine x0 y0 x1 y1 =
     (let dx = Math_abs (js_sub x1 x0);
          dy = Math_abs (js_sub y1 y0);
          sx = (if js_lt x0 x1 then Fin 1 else Fin (- 1));
          sy = (if js_lt y0 y1 then Fin 1 else Fin (- 1));
          err = js_sub dx dy
      in bresenhamLine_loop x1 y1 dx dy sx sy x0 y0 err (Fin 0) [])"

subsection \<open>The simulator's Bresenham (\<^verbatim>\<open>bresenhamLinePixels\<close>, \<^verbatim>\<open>part_000\<close> 213-243)\<close>

text \<open>
  The same loop with a bounds test in front of the push and no \<open>info\<close>. The test reads
  \<open>x\<close> and \<open>y\<close>; what is pushed is \<^verbatim>\<open>Math.round(x)\<close> and \<^verbatim>\<open>Math.round(y)\<close>.
\<close>

partial_function (option) bresenhamLinePixels_loop ::
  "jsnum \<Rightarrow> jsnum \<Rightarrow> jsnum \<Rightarrow> jsnum \<Rightarrow> jsnum \<Rightarrow> jsnum \<Rightarrow> jsnum \<Rightarrow> jsnum \<Rightarrow> jsnum \<Rightarrow> jsnum \<Rightarrow> jsnum
   \<Rightarrow> jspoint list \<Rightarrow> jspoint list option" where
  "bresenhamLinePixels_loop x1 y1 canvasWidth canvasHeight dx dy sx sy x y err pixels =
     (let pixels' =
            (if js_ge x (Fin 0) \<and> js_lt x canvasWidth \<and> js_ge y (Fin 0) \<and> js_lt y canvasHeight
             then pixels @ [(Math_round x, Math_round y)] else pixels) in
      if js_eq x x1 \<and> js_eq y y1 then Some pixels'
      else
        let e2 = js_mul (Fin 2) err;
            err' = (if js_gt e2 (js_neg dy) then js_sub err dy else err);
            x' = (if js_gt e2 (js_neg dy) then js_add x sx else x);
            err'' = (if js_lt e2 dx then js_add err' dx else err');
            y' = (if js_lt e2 dx then js_add y sy else y)
        in bresenhamLinePixels_loop x1 y1 canvasWidth canvasHeight dx dy sx sy x' y' err'' pixels')"

declare bresenhamLinePixels_loop.simps [code]

definition bresenhamLinePixels ::
  "jsnum \<Rightarrow> jsnum \<Rightarrow> jsnum \<Rightarrow> jsnum \<Rightarrow> jsnum \<Rightarrow> jsnum \<Rightarrow> jspoint list option" where
  "bresenhamLinePixels x0 y0 x1 y1 canvasWidth canvasHeight =
     (let dx = Math_abs (js_sub x1 x0);
          dy = Math_abs (js_sub y1 y0);
          sx = (if js_lt x0 x1 then Fin 1 else Fin (- 1));
          sy = (if js_lt y0 y1 then Fin 1 else Fin (- 1));
          err = js_sub dx dy
      in bresenhamLinePixels_loop x1 y1 canvasWidth canvasHeight dx dy sx sy x0 y0 err [])"

subsection \<open>Midpoint circle (\<^verbatim>\<open>midpointCircle\<close>, index.html 422-462 and \<^verbatim>\<open>part_001\<close> 206-239)\<close>

text \<open>The helper that pushes the eight octant images of \<open>(px, py)\<close>, in the source's order.\<close>

definition drawCirclePoints :: "jsnum \<Rightarrow> jsnum \<Rightarrow> jsnum \<Rightarrow> jsnum \<Rightarrow> step_info \<Rightarrow> pixel list" where
  "drawCirclePoints cx cy px' py' label =
     [\<lparr>px = js_add cx px', py = js_add cy py', info = label\<rparr>,
      \<lparr>px = js_add cx py', py = js_add cy px', info = label\<rparr>,
      \<lparr>px = js_sub cx px', py = js_add cy py', info = label\<rparr>,
      \<lparr>px = js_sub cx py', py = js_add cy px', info = label\<rparr>,
      \<lparr>px = js_sub cx px', py = js_sub cy py', info = label\<rparr>,
      \<lparr>px = js_sub cx py', py = js_sub cy px', info = label\<rparr>,
      \<lparr>px = js_add cx px', py = js_sub cy py', info = label\<rparr>,
      \<lparr>px = js_add cx py', py = js_sub cy px', info = label\<rparr>]"

text \<open>The loop \<^verbatim>\<open>while (x < y)\<close>.\<close>

partial_function (option) midpointCircle_loop ::
  "jsnum \<Rightarrow> jsnum \<Rightarrow> jsnum \<Rightarrow> jsnum \<Rightarrow> jsnum \<Rightarrow> jsnum \<Rightarrow> pixel list \<Rightarrow> pixel list option" where
  "midpointCircle_loop cx cy x y p i pixels =
     (if js_lt x y then
        let x' = js_add x (Fin 1);
            y' = (if js_lt p (Fin 0) then y else js_sub y (Fin 1));
            p' = (if js_lt p (Fin 0)
                  then js_add (js_add p (js_mul (Fin 2) x')) (Fin 1)
                  else js_sub (js_add (js_add p (js_mul (Fin 2) x')) (Fin 1))
                         (js_mul (Fin 2) y'));
            i' = js_add i (Fin 1)
        in midpointCircle_loop cx cy x' y' p' i'
             (pixels @ drawCirclePoints cx cy x' y' (CircleStep i' x' y' p'))
      else Some pixels)"

declare midpointCircle_loop.simps [code]

definition midpointCircle :: "jsnum \<Rightarrow> jsnum \<Rightarrow> jsnum \<Rightarrow> pixel list option" where
  "midpointCircle cx cy r =
     (let x = Fin 0; y = r; p = js_sub (Fin 1) r
      in midpointCircle_loop cx cy x y p (Fin 0)
           (drawCirclePoints cx cy x y (CircleInitial x y p)))"

subsection \<open>DDA line (\<^verbatim>\<open>ddaLine\<close>, index.html 343-371 and \<^verbatim>\<open>part_001\<close> 126-154)\<close>

text \<open>
  The \<^verbatim>\<open>for (let i = 0; i <= steps; i++)\<close> loop. When \<open>steps\<close> is 0 the increments are
  \<open>0 / 0 = NaN\<close>.
\<close>

partial_function (option) ddaLine_loop ::
  "jsnum \<Rightarrow> jsnum \<Rightarrow> jsnum \<Rightarrow> jsnum \<Rightarrow> jsnum \<Rightarrow> jsnum \<Rightarrow> pixel list \<Rightarrow> pixel list option" where
  "ddaLine_loop steps xIncrement yIncrement x y i pixels =
     (if js_le i steps then
        ddaLine_loop steps xIncrement yIncrement (js_add x xIncrement) (js_add y yIncrement)
          (js_add i (Fin 1))
          (pixels @ [\<lparr>px = Math_round x, py = Math_round y, info = DDAStep i x y\<rparr>])
      else Some pixels)"

declare ddaLine_loop.simps [code]

definition ddaLine :: "jsnum \<Rightarrow> jsnum \<Rightarrow> jsnum \<Rightarrow> jsnum \<Rightarrow> pixel list option" where
  "ddaLine x0 y0 x1 y1 =
     (let dx = js_sub x1 x0;
          dy = js_sub y1 y0;
          steps = (if js_gt (Math_abs dx) (Math_abs dy) then Math_abs dx else Math_abs dy);
          xIncrement = js_div dx steps;
          yIncrement = js_div dy steps
      in ddaLine_loop steps xIncrement yIncrement x0 y0 (Fin 0) [])"

subsection \<open>Vocabulary of the properties\<close>

definition position :: "pixel \<Rightarrow> jspoint" where
  "position p = (px p, py p)"

text \<open>The positions of the pixels a call returned; none if it did not return.\<close>

definition positions :: "pixel list option \<Rightarrow> jspoint list" where
  "positions r = (case r of None \<Rightarrow> [] | Some ps \<Rightarrow> map position ps)"

definition js_point :: "point \<Rightarrow> jspoint" where
  "js_point q = (js_int (fst q), js_int (snd q))"

text \<open>
  The range of coordinates and radii the results below are stated for. Within it every
  number the rasterizers compute is an integer that binary64 holds exactly, and the
  lists they build (at most \<open>2\<^sup>3\<^sup>0 + 1\<close> pixels for a line, \<open>8 r + 8\<close> for a
  circle) stay below the \<open>2\<^sup>3\<^sup>2 - 1\<close> elements a JavaScript array can hold.
\<close>

definition coordinate :: "int \<Rightarrow> bool" where
  "coordinate n = (\<bar>n\<bar> \<le> 2 ^ 28)"

text \<open>8-connectivity: neighbours in the list differ by at most one in each axis.\<close>

fun connected8 :: "point list \<Rightarrow> bool" where
  "connected8 [] = True"
| "connected8 [p] = True"
| "connected8 (p # q # ps) =
     (\<bar>fst q - fst p\<bar> \<le> 1 \<and> \<bar>snd q - snd p\<bar> \<le> 1 \<and> connected8 (q # ps))"

text \<open>The bounds test of \<^verbatim>\<open>bresenhamLinePixels\<close>, on a position.\<close>

definition in_bounds :: "jsnum \<Rightarrow> jsnum \<Rightarrow> jspoint \<Rightarrow> bool" where
  "in_bounds canvasWidth canvasHeight p =
     (js_ge (fst p) (Fin 0) \<and> js_lt (fst p) canvasWidth \<and>
      js_ge (snd p) (Fin 0) \<and> js_lt (snd p) canvasHeight)"

text \<open>
  The loop invariant of both Bresenham loops on integers: \<open>a\<close> and \<open>b\<close> are the steps
  still to take along each axis, the error term is determined by them and stays within
  \<open>- 3 dy \<le> 2 err \<le> 3 dx\<close>.
\<close>

definition bres_inv ::
  "int \<Rightarrow> int \<Rightarrow> int \<Rightarrow> int \<Rightarrow> int \<Rightarrow> int \<Rightarrow> int \<Rightarrow> int \<Rightarrow> int \<Rightarrow> int \<Rightarrow> int \<Rightarrow> bool" where
  "bres_inv x1 y1 dx dy sx sy x y err a b =
     (0 \<le> a \<and> a \<le> dx \<and> 0 \<le> b \<and> b \<le> dy \<and> (sx = 1 \<or> sx = - 1) \<and> (sy = 1 \<or> sy = - 1) \<and>
      x1 = x + sx * a \<and> y1 = y + sy * b \<and> err = dx - dy + a * dy - b * dx \<and>
      - 3 * dy \<le> 2 * err \<and> 2 * err \<le> 3 * dx)"

text \<open>
  The eight images of a point under the reflections of the circle about its centre
  \<open>(cx, cy)\<close>: the two axes through the centre and the two diagonals.
\<close>

definition reflections8 :: "int \<Rightarrow> int \<Rightarrow> point \<Rightarrow> point list" where
  "reflections8 cx cy q =
     (let u = fst q - cx; v = snd q - cy in
      [(cx + u, cy + v), (cx + v, cy + u), (cx - u, cy + v), (cx - v, cy + u),
       (cx - u, cy - v), (cx - v, cy - u), (cx + u, cy - v), (cx + v, cy - u)])"

definition symmetric8 :: "int \<Rightarrow> int \<Rightarrow> point set \<Rightarrow> bool" where
  "symmetric8 cx cy S = (\<forall>q \<in> S. set (reflections8 cx cy q) \<subseteq> S)"

text \<open>The Euclidean distance of a pixel from the centre.\<close>

definition distance :: "int \<Rightarrow> int \<Rightarrow> point \<Rightarrow> real" where
  "distance cx cy q = sqrt (real_of_int ((fst q - cx)\<^sup>2 + (snd q - cy)\<^sup>2))"

text \<open>
  The loop invariant of the midpoint circle on integers: the decision parameter is the
  circle function at the midpoint, and it stays within a band around zero.
\<close>

definition circle_inv :: "int \<Rightarrow> int \<Rightarrow> int \<Rightarrow> int \<Rightarrow> bool" where
  "circle_inv r x y p =
     (0 \<le> x \<and> y \<le> r \<and> p = (x + 1)\<^sup>2 + y\<^sup>2 - y - r\<^sup>2 \<and>
      2 * x - 2 * y + 1 \<le> p \<and> p \<le> 2 * x + 1 \<and> (p \<le> 2 * x \<or> y \<le> x))"

definition near_circle :: "int \<Rightarrow> int \<Rightarrow> int \<Rightarrow> point \<Rightarrow> bool" where
  "near_circle cx cy r q =
     (r\<^sup>2 - r \<le> (fst q - cx)\<^sup>2 + (snd q - cy)\<^sup>2 \<and> (fst q - cx)\<^sup>2 + (snd q - cy)\<^sup>2 \<le> r\<^sup>2 + r)"

text \<open>The eight octant images of \<open>(x, y)\<close> as integer points, in the order of
  \<open>drawCirclePoints\<close>.\<close>

definition octants :: "int \<Rightarrow> int \<Rightarrow> int \<Rightarrow> int \<Rightarrow> point list" where
  "octants cx cy x y =
     [(cx + x, cy + y), (cx + y, cy + x), (cx - x, cy + y), (cx - y, cy + x),
      (cx - x, cy - y), (cx - y, cy - x), (cx + x, cy - y), (cx + y, cy - x)]"

subsection \<open>Drawing surfaces and read-outs\<close>

text \<open>
  A canvas is modelled by the log of the calls made on its 2D context, oldest first:
  \<^verbatim>\<open>clearRect(0, 0, width, height)\<close>, \<^verbatim>\<open>fillRect(x, y, size, size)\<close> with its fill
  colour (\<^verbatim>\<open>drawPixel\<close>), and a stroked line with its colour and width. The type
  parameter is the type of the coordinates of \<^verbatim>\<open>drawPixel\<close>.
\<close>

type_synonym colour = string

text \<open>A segment of the display file, as the mouse handlers store it (\<^verbatim>\<open>part_000\<close>
  128-181): the end points are \<^verbatim>\<open>e.clientX - rect.left\<close> and
  \<^verbatim>\<open>e.clientY - rect.top\<close>, JavaScript numbers that need not be integers.\<close>

record line =
  line_x1 :: jsnum
  line_y1 :: jsnum
  line_x2 :: jsnum
  line_y2 :: jsnum

datatype 'n surface_op =
    ClearRect
  | FillRect 'n 'n colour nat
  | StrokeLine line colour nat

text \<open>The values \<^verbatim>\<open>setCurrentPixelInfo\<close> is called with.\<close>

datatype readout =
    Blank
  | ScanAt nat nat
  | RasterDone
  | TracingLine nat line
  | RandomDone

subsection \<open>Starting a visualisation (\<^verbatim>\<open>handleStartVisualization\<close>, \<^verbatim>\<open>part_001\<close> 409-445)\<close>

datatype algorithm = DDA | Bresenham | MidpointCircle

record coords =
  coord_x0 :: jsnum
  coord_y0 :: jsnum
  coord_x1 :: jsnum
  coord_y1 :: jsnum
  coord_cx :: jsnum
  coord_cy :: jsnum
  coord_radius :: jsnum

record visualizer =
  canvas :: "int surface_op list"
  pixelData :: "pixel list"
  currentIndex :: nat
  isAnimating :: bool
  currentPixelInfo :: readout
  message :: "string option"
  graphicsAnimationFrameId :: "nat option"
  graphicsTimeoutId :: "nat option"
  coords :: coords
  currentAlgorithm :: algorithm
  animationDelay :: nat

text \<open>\<^verbatim>\<open>clearGraphicsCanvas\<close> (\<^verbatim>\<open>part_001\<close> 56-82), for a mounted canvas.\<close>

definition clearGraphicsCanvas :: "bool \<Rightarrow> visualizer \<Rightarrow> visualizer" where
  "clearGraphicsCanvas resetAll st =
     (let st' = st\<lparr>canvas := canvas st @ [ClearRect],
                    pixelData := [],
                    currentIndex := 0,
                    isAnimating := False,
                    currentPixelInfo := Blank,
                    graphicsAnimationFrameId := None,
                    graphicsTimeoutId := None\<rparr>
      in if resetAll
         then st'\<lparr>coords := \<lparr>coord_x0 = Fin 50, coord_y0 = Fin 50, coord_x1 = Fin 200,
                               coord_y1 = Fin 150, coord_cx = Fin 250, coord_cy = Fin 250,
                               coord_radius = Fin 100\<rparr>,
                  currentAlgorithm := DDA,
                  animationDelay := 50\<rparr>
         else st')"

text \<open>The rasterizer a start hands its numbers to.\<close>

datatype rasterizer_call =
    CallDDA jsnum jsnum jsnum jsnum
  | CallBresenham jsnum jsnum jsnum jsnum
  | CallMidpointCircle jsnum jsnum jsnum

text \<open>
  The \<^verbatim>\<open>try\<close> block: \<open>Inl\<close> is the message of the \<^verbatim>\<open>Error\<close> thrown by a failed
  check, \<open>Inr\<close> the rasterizer call that follows the checks.
\<close>

definition start_request :: "algorithm \<Rightarrow> coords \<Rightarrow> string + rasterizer_call" where
  "start_request alg c =
     (if alg = DDA \<or> alg = Bresenham then
        if isNaN (coord_x0 c) \<or> isNaN (coord_y0 c) \<or> isNaN (coord_x1 c) \<or> isNaN (coord_y1 c)
        then Inl ''Please enter valid numeric coordinates for lines.''
        else Inr (if alg = DDA
                  then CallDDA (coord_x0 c) (coord_y0 c) (coord_x1 c) (coord_y1 c)
                  else CallBresenham (coord_x0 c) (coord_y0 c) (coord_x1 c) (coord_y1 c))
      else
        if isNaN (coord_cx c) \<or> isNaN (coord_cy c) \<or> isNaN (coord_radius c)
        then Inl ''Please enter valid numeric coordinates and radius for circle.''
        else if js_le (coord_radius c) (Fin 0)
        then Inl ''Radius must be a positive number.''
        else Inr (CallMidpointCircle (coord_cx c) (coord_cy c) (coord_radius c)))"

text \<open>
  The handler up to the rasterizer call: the canvas is cleared and the index reset first,
  then the checks run. A failed check shows its message and leaves the handler
  (\<open>None\<close>: no rasterizer is called).
\<close>

definition handleStartVisualization :: "visualizer \<Rightarrow> visualizer \<times> rasterizer_call option" where
  "handleStartVisualization st =
     (let st1 = clearGraphicsCanvas False st;
          st2 = st1\<lparr>currentIndex := 0\<rparr>
      in case start_request (currentAlgorithm st2) (coords st2) of
           Inl msg \<Rightarrow> (st2\<lparr>message := Some msg, isAnimating := False\<rparr>, None)
         | Inr call \<Rightarrow> (st2, Some call))"

text \<open>The rest of the handler, once the rasterizer has returned \<open>generatedPixels\<close>.\<close>

definition startGenerated :: "pixel list \<Rightarrow> visualizer \<Rightarrow> visualizer" where
  "startGenerated generatedPixels st =
     (if length generatedPixels > 0
      then st\<lparr>pixelData := generatedPixels, isAnimating := True\<rparr>
      else st\<lparr>message := Some ''No pixels generated. Check inputs.'', isAnimating := False\<rparr>)"

subsection \<open>The checks of the plain page (\<^verbatim>\<open>startBtn\<close> click handler, index.html 543-567)\<close>

text \<open>
  The same checks as three \<^verbatim>\<open>if\<close> statements; \<^verbatim>\<open>&&\<close> binds tighter than \<^verbatim>\<open>||\<close>,
  so the algorithm only qualifies the last test of each condition.
\<close>

definition startBtn_request :: "algorithm \<Rightarrow> coords \<Rightarrow> string + rasterizer_call" where
  "startBtn_request alg c =
     (if isNaN (coord_x0 c) \<or> isNaN (coord_y0 c) \<or> isNaN (coord_x1 c) \<or>
         (isNaN (coord_y1 c) \<and> (alg = DDA \<or> alg = Bresenham))
      then Inl ''Please enter valid numeric coordinates for lines.''
      else if isNaN (coord_cx c) \<or> isNaN (coord_cy c) \<or>
         (isNaN (coord_radius c) \<and> alg = MidpointCircle)
      then Inl ''Please enter valid numeric coordinates and radius for circle.''
      else if js_le (coord_radius c) (Fin 0) \<and> alg = MidpointCircle
      then Inl ''Radius must be a positive number.''
      else Inr (case alg of
                  DDA \<Rightarrow> CallDDA (coord_x0 c) (coord_y0 c) (coord_x1 c) (coord_y1 c)
                | Bresenham \<Rightarrow> CallBresenham (coord_x0 c) (coord_y0 c) (coord_x1 c) (coord_y1 c)
                | MidpointCircle \<Rightarrow> CallMidpointCircle (coord_cx c) (coord_cy c) (coord_radius c)))"

text \<open>The inputs the checks are there for: a parameter of the selected algorithm is
  \<open>NaN\<close>, or the circle's radius is not positive.\<close>

definition invalid_parameters :: "algorithm \<Rightarrow> coords \<Rightarrow> bool" where
  "invalid_parameters alg c =
     (case alg of
        MidpointCircle \<Rightarrow>
          isNaN (coord_cx c) \<or> isNaN (coord_cy c) \<or> isNaN (coord_radius c) \<or>
          js_le (coord_radius c) (Fin 0)
      | _ \<Rightarrow> isNaN (coord_x0 c) \<or> isNaN (coord_y0 c) \<or> isNaN (coord_x1 c) \<or> isNaN (coord_y1 c))"

subsection \<open>Raster display simulator (\<^verbatim>\<open>part_000\<close> 205-348)\<close>

text \<open>
  \<open>fault\<close> names the two ways a step of the simulator could fail to deliver a state: an
  access outside the frame buffer (JavaScript would throw on a missing row, read
  \<^verbatim>\<open>undefined\<close> from a missing column, or grow the row on a write), and a rasterizer
  that does not return.
\<close>

datatype fault = OutOfRange | NoReturn

text \<open>
  \<^verbatim>\<open>rasterDisplayData\<close> together with the raster canvas: its layout size
  (\<^verbatim>\<open>clientWidth\<close>, \<^verbatim>\<open>clientHeight\<close>), its bitmap size, the log of drawing calls, the
  last read-out, and whether the last step left a next step scheduled.
\<close>

record raster_sim =
  clientWidth :: nat
  clientHeight :: nat
  canvas_width :: nat
  canvas_height :: nat
  raster_surface :: "int surface_op list"
  buffer :: "colour list list"
  currentScanline :: nat
  currentPixelInScanline :: nat
  rasterInfo :: readout
  rasterScheduled :: bool

text \<open>\<^verbatim>\<open>resizeCanvas\<close> (\<^verbatim>\<open>part_000\<close> 114-124) on the raster canvas.\<close>

definition resizeCanvas :: "raster_sim \<Rightarrow> raster_sim" where
  "resizeCanvas st =
     (if canvas_width st \<noteq> clientWidth st \<or> canvas_height st \<noteq> clientHeight st
      then st\<lparr>canvas_width := clientWidth st, canvas_height := clientHeight st\<rparr>
      else st)"

definition clearCanvas :: "raster_sim \<Rightarrow> raster_sim" where
  "clearCanvas st = st\<lparr>raster_surface := raster_surface st @ [ClearRect]\<rparr>"

text \<open>
  The array element a JavaScript number selects: a non-negative integer is an index,
  any other number names no element.
\<close>

definition as_index :: "jsnum \<Rightarrow> nat option" where
  "as_index v =
     (case v of
        Fin q \<Rightarrow> if 0 \<le> q \<and> of_int \<lfloor>q\<rfloor> = q then Some (nat \<lfloor>q\<rfloor>) else None
      | _ \<Rightarrow> None)"

text \<open>\<^verbatim>\<open>buffer[y][x] = c\<close> and \<^verbatim>\<open>buffer[row][col]\<close>, with the range made explicit.\<close>

definition buffer_write ::
  "colour list list \<Rightarrow> jsnum \<Rightarrow> jsnum \<Rightarrow> colour \<Rightarrow> fault + colour list list" where
  "buffer_write buf y x c =
     (case as_index y of
        None \<Rightarrow> Inl OutOfRange
      | Some row \<Rightarrow>
          (case as_index x of
             None \<Rightarrow> Inl OutOfRange
           | Some col \<Rightarrow>
               if row < length buf \<and> col < length (buf ! row)
               then Inr (buf[row := (buf ! row)[col := c]])
               else Inl OutOfRange))"

definition buffer_read :: "colour list list \<Rightarrow> nat \<Rightarrow> nat \<Rightarrow> fault + colour" where
  "buffer_read buf row col =
     (if row < length buf \<and> col < length (buf ! row) then Inr (buf ! row ! col)
      else Inl OutOfRange)"

text \<open>\<^verbatim>\<open>pixels.forEach\<close> and \<^verbatim>\<open>drawnLines.forEach\<close> of \<^verbatim>\<open>initializeRasterBuffer\<close>; the
  first tests each pixel against the size of the canvas once more before it writes.\<close>

fun plot_pixels ::
  "colour \<Rightarrow> nat \<Rightarrow> nat \<Rightarrow> jspoint list \<Rightarrow> colour list list \<Rightarrow> fault + colour list list" where
  "plot_pixels c width height [] buf = Inr buf"
| "plot_pixels c width height (p # ps) buf =
     (if js_ge (snd p) (Fin 0) \<and> js_lt (snd p) (js_int (int height)) \<and>
         js_ge (fst p) (Fin 0) \<and> js_lt (fst p) (js_int (int width))
      then (case buffer_write buf (snd p) (fst p) c of
              Inl e \<Rightarrow> Inl e
            | Inr buf' \<Rightarrow> plot_pixels c width height ps buf')
      else plot_pixels c width height ps buf)"

fun plot_lines ::
  "colour \<Rightarrow> nat \<Rightarrow> nat \<Rightarrow> line list \<Rightarrow> colour list list \<Rightarrow> fault + colour list list" where
  "plot_lines c width height [] buf = Inr buf"
| "plot_lines c width height (l # ls) buf =
     (case bresenhamLinePixels (line_x1 l) (line_y1 l) (line_x2 l) (line_y2 l)
             (js_int (int width)) (js_int (int height)) of
        None \<Rightarrow> Inl NoReturn
      | Some pixels \<Rightarrow>
          (case plot_pixels c width height pixels buf of
             Inl e \<Rightarrow> Inl e
           | Inr buf' \<Rightarrow> plot_lines c width height ls buf'))"

text \<open>\<^verbatim>\<open>initializeRasterBuffer\<close> (\<^verbatim>\<open>part_000\<close> 245-269). The field \<^verbatim>\<open>pixelsToDraw\<close> it resets is
  never read and is left out.\<close>

definition initializeRasterBuffer ::
  "bool \<Rightarrow> line list \<Rightarrow> raster_sim \<Rightarrow> fault + raster_sim" where
  "initializeRasterBuffer darkMode drawnLines st =
     (let st' = clearCanvas (resizeCanvas st);
          width = canvas_width st';
          height = canvas_height st';
          buffer0 = replicate height
                      (replicate width (if darkMode then ''#1f2937'' else ''#f0f2f5''))
      in case plot_lines (if darkMode then ''#cbd5e1'' else ''black'') width height
                drawnLines buffer0 of
           Inl e \<Rightarrow> Inl e
         | Inr buffer' \<Rightarrow>
             Inr (st'\<lparr>buffer := buffer', currentScanline := 0, currentPixelInScanline := 0\<rparr>))"

text \<open>
  One call of \<^verbatim>\<open>animateRasterDisplay\<close> (\<^verbatim>\<open>part_000\<close> 271-318). The delay of the timeout it
  sets is not modelled, only that it sets one.
\<close>

definition animateRasterDisplay :: "bool \<Rightarrow> raster_sim \<Rightarrow> fault + raster_sim" where
  "animateRasterDisplay isSimulating st =
     (let width = canvas_width st; height = canvas_height st in
      if \<not> isSimulating \<or> length (buffer st) = 0 then Inr (st\<lparr>rasterScheduled := False\<rparr>)
      else if currentScanline st < height \<and> currentPixelInScanline st < width then
        (case buffer_read (buffer st) (currentScanline st) (currentPixelInScanline st) of
           Inl e \<Rightarrow> Inl e
         | Inr pixelColor \<Rightarrow>
             Inr (st\<lparr>raster_surface := raster_surface st @
                        [FillRect (int (currentPixelInScanline st)) (int (currentScanline st))
                           pixelColor 2],
                     rasterInfo := ScanAt (currentPixelInScanline st) (currentScanline st),
                     currentPixelInScanline :=
                       (if currentPixelInScanline st + 1 \<ge> width then 0
                        else currentPixelInScanline st + 1),
                     currentScanline :=
                       (if currentPixelInScanline st + 1 \<ge> width then currentScanline st + 1
                        else currentScanline st),
                     rasterScheduled := True\<rparr>))
      else
        Inr (st\<lparr>currentScanline := 0,
                currentPixelInScanline := 0,
                raster_surface := raster_surface st @ [ClearRect],
                rasterInfo := RasterDone,
                rasterScheduled := True\<rparr>))"

text \<open>
  The effect that starts the simulation (\<^verbatim>\<open>part_000\<close> 322-331): rebuild the buffer, then
  request the first frame.
\<close>

definition startRaster :: "bool \<Rightarrow> line list \<Rightarrow> raster_sim \<Rightarrow> fault + raster_sim" where
  "startRaster darkMode drawnLines st =
     (case initializeRasterBuffer darkMode drawnLines st of
        Inl e \<Rightarrow> Inl e
      | Inr st' \<Rightarrow> Inr (st'\<lparr>rasterScheduled := True\<rparr>))"

text \<open>The first \<open>n\<close> scheduled steps: a step runs only if the one before scheduled it.\<close>

fun raster_run :: "bool \<Rightarrow> nat \<Rightarrow> raster_sim \<Rightarrow> fault + raster_sim" where
  "raster_run isSimulating 0 st = Inr st"
| "raster_run isSimulating (Suc n) st =
     (case raster_run isSimulating n st of
        Inl e \<Rightarrow> Inl e
      | Inr st' \<Rightarrow>
          if rasterScheduled st' then animateRasterDisplay isSimulating st' else Inr st')"

text \<open>The drawing call for cell number \<open>j\<close> of a buffer in row-major order.\<close>

definition cell_draw :: "colour list list \<Rightarrow> nat \<Rightarrow> nat \<Rightarrow> int surface_op" where
  "cell_draw buf w j = FillRect (int (j mod w)) (int (j div w)) (buf ! (j div w) ! (j mod w)) 2"

text \<open>A simulator state whose buffer is \<open>buf\<close>, with \<open>h\<close> rows of \<open>w\<close> cells, on a
  \<open>w \<times> h\<close> canvas.\<close>

definition raster_ready :: "nat \<Rightarrow> nat \<Rightarrow> colour list list \<Rightarrow> raster_sim \<Rightarrow> bool" where
  "raster_ready w h buf st =
     (canvas_width st = w \<and> canvas_height st = h \<and> buffer st = buf \<and>
      length buf = h \<and> list_all (\<lambda>row. length row = w) buf)"

text \<open>A segment whose end points are integers in range.\<close>

definition integer_segment :: "line \<Rightarrow> bool" where
  "integer_segment l =
     (\<exists>x1 y1 x2 y2. coordinate x1 \<and> coordinate y1 \<and> coordinate x2 \<and> coordinate y2 \<and>
        l = \<lparr>line_x1 = js_int x1, line_y1 = js_int y1, line_x2 = js_int x2, line_y2 = js_int y2\<rparr>)"

text \<open>A position whose coordinates both come out of \<^verbatim>\<open>Math.round\<close>.\<close>

definition rounded :: "jspoint \<Rightarrow> bool" where
  "rounded p = (Math_round (fst p) = fst p \<and> Math_round (snd p) = snd p)"

subsection \<open>Random-scan display simulator (\<^verbatim>\<open>part_000\<close> 352-448)\<close>

record random_sim =
  currentLineIndex :: nat
  random_surface :: "int surface_op list"
  randomInfo :: readout
  randomScheduled :: bool

text \<open>One call of \<^verbatim>\<open>animateRandomDisplay\<close> (\<^verbatim>\<open>part_000\<close> 358-418). The vector display has
  no buffer, so the size of its canvas plays no part and \<^verbatim>\<open>resizeCanvas\<close> is left out.\<close>

definition animateRandomDisplay :: "bool \<Rightarrow> bool \<Rightarrow> line list \<Rightarrow> random_sim \<Rightarrow> random_sim" where
  "animateRandomDisplay isSimulating darkMode drawnLines st =
     (if \<not> isSimulating \<or> length drawnLines = 0 then st\<lparr>randomScheduled := False\<rparr>
      else
        let redrawn = random_surface st @ [ClearRect] @
              map (\<lambda>l. StrokeLine l
                     (if darkMode then ''rgba(203, 213, 225, 0.8)'' else ''rgba(0, 0, 0, 0.8)'') 2)
                drawnLines;
            currentLineIndex' = currentLineIndex st
        in if currentLineIndex' < length drawnLines then
             let l = drawnLines ! currentLineIndex';
                 highlighted = redrawn @
                   [StrokeLine l (if darkMode then ''#fde047'' else ''#eab308'') 3]
             in if currentLineIndex' + 1 \<ge> length drawnLines
                then st\<lparr>random_surface := highlighted, currentLineIndex := 0,
                         randomInfo := RandomDone, randomScheduled := True\<rparr>
                else st\<lparr>random_surface := highlighted,
                         currentLineIndex := currentLineIndex' + 1,
                         randomInfo := TracingLine (currentLineIndex' + 1) l,
                         randomScheduled := True\<rparr>
           else st\<lparr>random_surface := redrawn, currentLineIndex := 0,
                    randomInfo := RandomDone, randomScheduled := True\<rparr>)"

text \<open>The first \<open>n\<close> scheduled steps of the random-scan simulator.\<close>

fun random_run :: "bool \<Rightarrow> bool \<Rightarrow> line list \<Rightarrow> nat \<Rightarrow> random_sim \<Rightarrow> random_sim" where
  "random_run isSimulating darkMode drawnLines 0 st = st"
| "random_run isSimulating darkMode drawnLines (Suc n) st =
     (let st' = random_run isSimulating darkMode drawnLines n st
      in if randomScheduled st' then animateRandomDisplay isSimulating darkMode drawnLines st'
         else st')"

text \<open>The segments stroked in the highlight style (line width 3), in drawing order.\<close>

fun highlights :: "'n surface_op list \<Rightarrow> line list" where
  "highlights [] = []"
| "highlights (StrokeLine l c w # ops) = (if w = 3 then l # highlights ops else highlights ops)"
| "highlights (_ # ops) = highlights ops"

subsection \<open>Small concrete inputs\<close>

text \<open>
  The raster canvas laid out at 312 by 300 (its style sets a minimum height of 300
  pixels), with the bitmap size of its attributes, 500 by 400, before the first start; a
  segment drawn with the mouse along its lower edge, and one whose end points differ by
  half a pixel; and a display file of two segments for the random-scan simulator.
\<close>

definition raster_example :: raster_sim where
  "raster_example = \<lparr>clientWidth = 312, clientHeight = 300, canvas_width = 500,
     canvas_height = 400, raster_surface = [], buffer = [], currentScanline = 0,
     currentPixelInScanline = 0, rasterInfo = Blank, rasterScheduled = False\<rparr>"

definition edge_segment :: line where
  "edge_segment = \<lparr>line_x1 = Fin (21 / 2), line_y1 = Fin (599 / 2),
     line_x2 = Fin (27 / 2), line_y2 = Fin (599 / 2)\<rparr>"

definition half_pixel_segment :: line where
  "half_pixel_segment = \<lparr>line_x1 = Fin 3, line_y1 = Fin 7, line_x2 = Fin (7 / 2), line_y2 = Fin 7\<rparr>"

definition random_example :: random_sim where
  "random_example = \<lparr>currentLineIndex = 0, random_surface = [], randomInfo = Blank,
     randomScheduled = True\<rparr>"

definition example_display_file :: "line list" where
  "example_display_file =
     [\<lparr>line_x1 = Fin 1, line_y1 = Fin 0, line_x2 = Fin 5, line_y2 = Fin 0\<rparr>,
      \<lparr>line_x1 = Fin 0, line_y1 = Fin 0, line_x2 = Fin 0, line_y2 = Fin 3\<rparr>]"

subsection \<open>The step player of the plain page (index.html 251-295 and 469-578)\<close>

text \<open>
  The page keeps its player in global variables. The model adds what the browser holds:
  the timeouts and animation-frame requests that are pending, by id, and the next free
  id. Every timeout of the page has the callback
  \<^verbatim>\<open>() => { animationFrameId = requestAnimationFrame(animateVisualization); }\<close>, and every
  frame request runs \<^verbatim>\<open>animateVisualization\<close>, so an id is all a pending entry needs.
\<close>

datatype panel_info =
    PanelBlank
  | PanelStep jsnum jsnum step_info
  | PanelDone
  | PanelError

record player =
  html_pixelData :: "pixel list"
  html_currentIndex :: nat
  html_animationFrameId :: "nat option"
  html_canvas :: "jsnum surface_op list"
  html_info :: panel_info
  pending_timeouts :: "nat list"
  pending_frames :: "nat list"
  next_id :: nat

text \<open>\<^verbatim>\<open>cancelAnimationFrame(animationFrameId)\<close> under \<^verbatim>\<open>if (animationFrameId)\<close>.\<close>

definition cancel_frame :: "player \<Rightarrow> player" where
  "cancel_frame st =
     (case html_animationFrameId st of
        None \<Rightarrow> st
      | Some fid \<Rightarrow> st\<lparr>pending_frames := removeAll fid (pending_frames st)\<rparr>)"

text \<open>\<^verbatim>\<open>clearCanvas\<close> (index.html 284-295).\<close>

definition html_clearCanvas :: "player \<Rightarrow> player" where
  "html_clearCanvas st =
     (let st1 = st\<lparr>html_canvas := html_canvas st @ [ClearRect],
                    html_pixelData := [],
                    html_currentIndex := 0,
                    html_info := PanelBlank\<rparr>
      in case html_animationFrameId st1 of
           None \<Rightarrow> st1
         | Some fid \<Rightarrow> (cancel_frame st1)\<lparr>html_animationFrameId := None\<rparr>)"

text \<open>\<^verbatim>\<open>animateVisualization\<close> (index.html 469-496).\<close>

definition animateVisualization :: "player \<Rightarrow> player" where
  "animateVisualization st =
     (if html_currentIndex st < length (html_pixelData st) then
        let pixel = html_pixelData st ! html_currentIndex st;
            canvas1 =
              (if html_currentIndex st > 0
               then let prevPixel = html_pixelData st ! (html_currentIndex st - 1)
                    in html_canvas st @ [FillRect (px prevPixel) (py prevPixel) ''black'' 2]
               else html_canvas st)
        in st\<lparr>html_canvas := canvas1 @ [FillRect (px pixel) (py pixel) ''#ef4444'' 4],
               html_info := PanelStep (px pixel) (py pixel) (info pixel),
               html_currentIndex := html_currentIndex st + 1,
               pending_timeouts := pending_timeouts st @ [next_id st],
               next_id := next_id st + 1\<rparr>
      else
        st\<lparr>html_canvas :=
               (if length (html_pixelData st) > 0
                then let lastPixel = html_pixelData st ! (length (html_pixelData st) - 1)
                     in html_canvas st @ [FillRect (px lastPixel) (py lastPixel) ''black'' 2]
                else html_canvas st),
             html_info := PanelDone,
             html_animationFrameId := None\<rparr>)"

text \<open>The browser runs a pending timeout, or a pending frame request.\<close>

definition timeout_fires :: "nat \<Rightarrow> player \<Rightarrow> player" where
  "timeout_fires tid st =
     (if tid \<in> set (pending_timeouts st)
      then st\<lparr>pending_timeouts := removeAll tid (pending_timeouts st),
              html_animationFrameId := Some (next_id st),
              pending_frames := pending_frames st @ [next_id st],
              next_id := next_id st + 1\<rparr>
      else st)"

definition frame_fires :: "nat \<Rightarrow> player \<Rightarrow> player" where
  "frame_fires fid st =
     (if fid \<in> set (pending_frames st)
      then animateVisualization (st\<lparr>pending_frames := removeAll fid (pending_frames st)\<rparr>)
      else st)"

text \<open>
  The click on Start (index.html 530-578) for inputs that pass the checks, with
  \<open>generated\<close> the pixels the selected rasterizer stored in \<^verbatim>\<open>pixelData\<close>.
\<close>

definition startBtn_play :: "pixel list \<Rightarrow> player \<Rightarrow> player" where
  "startBtn_play generated st =
     (let st1 = (html_clearCanvas st)\<lparr>html_currentIndex := 0\<rparr>;
          st2 = st1\<lparr>html_pixelData := generated\<rparr>;
          st3 = cancel_frame st2
      in if length (html_pixelData st3) > 0 then animateVisualization st3
         else st3\<lparr>html_info := PanelError\<rparr>)"

text \<open>The page after loading: nothing drawn but the initial clear, nothing pending.\<close>

definition player_example :: player where
  "player_example = \<lparr>html_pixelData = [], html_currentIndex = 0, html_animationFrameId = None,
     html_canvas = [ClearRect], html_info = PanelBlank, pending_timeouts = [],
     pending_frames = [], next_id = 1\<rparr>"

definition line_example :: "pixel list" where
  "line_example =
     [\<lparr>px = Fin 0, py = Fin 0, info = BresenhamStep (Fin 0) (Fin 0) (Fin 0) (Fin 2)\<rparr>,
      \<lparr>px = Fin 1, py = Fin 0, info = BresenhamStep (Fin 1) (Fin 1) (Fin 0) (Fin 1)\<rparr>,
      \<lparr>px = Fin 2, py = Fin 1, info = BresenhamStep (Fin 2) (Fin 2) (Fin 1) (Fin 3)\<rparr>,
      \<lparr>px = Fin 3, py = Fin 1, info = BresenhamStep (Fin 3) (Fin 3) (Fin 1) (Fin 2)\<rparr>]"

section \<open>Verification\<close>

subsection \<open>Rounding to binary64\<close>

lemma bitlen_powi_bounds:
  assumes "0 < a"
  shows "(2::rat) powi (bitlen a - 1) \<le> of_int a" "of_int a < (2::rat) powi (bitlen a)"
proof -
  from bitlen_bounds[OF assms] have lo: "2 ^ nat (bitlen a - 1) \<le> a" and hi: "a < 2 ^ nat (bitlen a)"
    by auto
  from assms have b1: "1 \<le> bitlen a" by (auto simp: bitlen_alt_def)
  have "(2::rat) powi (bitlen a - 1) = 2 ^ nat (bitlen a - 1)"
    using b1 by (simp add: power_int_def)
  also have "\<dots> = of_int (2 ^ nat (bitlen a - 1))" by simp
  also have "\<dots> \<le> of_int a" using lo by (simp only: of_int_le_iff)
  finally show "(2::rat) powi (bitlen a - 1) \<le> of_int a" .
  have "(of_int a :: rat) < of_int (2 ^ nat (bitlen a))" using hi by (simp only: of_int_less_iff)
  also have "\<dots> = 2 ^ nat (bitlen a)" by simp
  also have "\<dots> = (2::rat) powi (bitlen a)" using b1 by (simp add: power_int_def)
  finally show "of_int a < (2::rat) powi (bitlen a)" .
qed

lemma ilog2_bounds:
  assumes "0 < q"
  shows "2 powi (ilog2 q) \<le> q" "q < 2 powi (ilog2 q + 1)"
proof -
  obtain a b where ab: "quotient_of q = (a, b)" by (cases "quotient_of q")
  then have b: "0 < b" and q: "q = of_int a / of_int b"
    using quotient_of_denom_pos quotient_of_div by auto
  with assms have a: "0 < a" by (simp add: zero_less_divide_iff)
  let ?e = "bitlen a - bitlen b"
  note A = bitlen_powi_bounds[OF a] and B = bitlen_powi_bounds[OF b]
  have bpos: "(0::rat) < of_int b" using b by simp
  have up: "q < 2 powi (?e + 1)"
  proof -
    have "of_int a < (2::rat) powi (bitlen a)" by (rule A(2))
    also have "\<dots> = 2 powi (?e + 1) * 2 powi (bitlen b - 1)"
      by (simp flip: power_int_add)
    also have "\<dots> \<le> 2 powi (?e + 1) * of_int b"
      using B(1) by (intro mult_left_mono) auto
    finally show ?thesis using bpos unfolding q by (simp add: pos_divide_less_eq)
  qed
  have lo: "2 powi (?e - 1) \<le> q"
  proof -
    have "2 powi (?e - 1) * of_int b \<le> (2::rat) powi (?e - 1) * 2 powi (bitlen b)"
      using B(2) by (intro mult_left_mono) auto
    also have "\<dots> = 2 powi (bitlen a - 1)" by (simp flip: power_int_add)
    also have "\<dots> \<le> of_int a" by (rule A(1))
    finally show ?thesis using bpos unfolding q by (simp add: pos_le_divide_eq)
  qed
  have e: "ilog2 q = (if 2 powi ?e \<le> q then ?e else ?e - 1)"
    unfolding ilog2_def Let_def ab by simp
  show "2 powi (ilog2 q) \<le> q"
    unfolding e using lo by auto
  show "q < 2 powi (ilog2 q + 1)"
    unfolding e using up by auto
qed

lemma ilog2_ge:
  assumes "0 < q" "2 powi k \<le> q"
  shows "k \<le> ilog2 q"
proof (rule ccontr)
  assume "\<not> k \<le> ilog2 q"
  then have "ilog2 q + 1 \<le> k" by simp
  then have "(2::rat) powi (ilog2 q + 1) \<le> 2 powi k"
    by (intro power_int_increasing) auto
  with ilog2_bounds(2)[OF assms(1)] assms(2) show False by simp
qed

lemma ilog2_le:
  assumes "0 < q" "q < 2 powi (k + 1)"
  shows "ilog2 q \<le> k"
proof (rule ccontr)
  assume "\<not> ilog2 q \<le> k"
  then have "k + 1 \<le> ilog2 q" by simp
  then have "(2::rat) powi (k + 1) \<le> 2 powi (ilog2 q)"
    by (intro power_int_increasing) auto
  with ilog2_bounds(1)[OF assms(1)] assms(2) show False by simp
qed

lemma round_half_even_of_int [simp]: "round_half_even (of_int n) = n"
  unfolding round_half_even_def by simp

lemma round_half_even_ge_floor: "\<lfloor>t\<rfloor> \<le> round_half_even t"
  unfolding round_half_even_def Let_def by simp


lemma round64_normal:
  assumes "q \<noteq> 0" "- 1022 \<le> ilog2 \<bar>q\<bar>" "ilog2 \<bar>q\<bar> \<le> 1022"
  shows "round64 q =
    Fin (of_int (round_half_even (q / 2 powi (ilog2 \<bar>q\<bar> - 52))) * 2 powi (ilog2 \<bar>q\<bar> - 52))"
  using assms unfolding round64_def Let_def by simp

lemma round64_small_int:
  assumes "\<bar>n\<bar> < 2 ^ 53"
  shows "round64 (of_int n) = Fin (of_int n)"
proof (cases "n = 0")
  case True
  then show ?thesis by (simp add: round64_def)
next
  case False
  let ?q = "of_int n :: rat"
  let ?e = "ilog2 \<bar>?q\<bar>"
  from False have pos: "0 < \<bar>?q\<bar>" by simp
  from False have "(1::rat) \<le> \<bar>?q\<bar>"
    by (metis abs_ge_zero less_le of_int_0 of_int_1 of_int_abs of_int_le_iff of_int_eq_iff
        abs_zero zless_imp_add1_zle zero_less_abs_iff add_0)
  then have e0: "0 \<le> ?e" using ilog2_ge[OF pos, of 0] by simp
  have "\<bar>?q\<bar> = of_int \<bar>n\<bar>" by simp
  also have "\<dots> < of_int (2 ^ 53)" using assms by (simp only: of_int_less_iff)
  also have "\<dots> = (2::rat) powi (52 + 1)" by (simp add: power_int_def)
  finally have e52: "?e \<le> 52" using ilog2_le[OF pos, of 52] by simp
  define k where "k = nat (52 - ?e)"
  have quantum: "(2::rat) powi (?e - 52) = 1 / 2 ^ k"
    using e52 unfolding k_def by (simp add: power_int_def field_simps)
  have div: "?q / (2 powi (?e - 52)) = of_int (n * 2 ^ k)"
    unfolding quantum by simp
  have m: "round_half_even (?q / (2 powi (?e - 52))) = n * 2 ^ k"
    unfolding div by (rule round_half_even_of_int)
  have v: "of_int (n * 2 ^ k) * (2::rat) powi (?e - 52) = ?q"
    unfolding quantum by simp
  have "round64 ?q = Fin (of_int (n * 2 ^ k) * 2 powi (?e - 52))"
    using round64_normal[of ?q] False e0 e52 unfolding m by simp
  then show ?thesis unfolding v .
qed

lemma round64_2_53: "round64 (2 ^ 53) = Fin (2 ^ 53)" "round64 (- (2 ^ 53)) = Fin (- (2 ^ 53))"
  by code_simp+

lemma round64_exact_int:
  assumes "\<bar>n\<bar> \<le> 2 ^ 53"
  shows "round64 (of_int n) = Fin (of_int n)"
proof (cases "\<bar>n\<bar> < 2 ^ 53")
  case True
  then show ?thesis by (rule round64_small_int)
next
  case False
  with assms have "n = 2 ^ 53 \<or> n = - (2 ^ 53)" by auto
  then show ?thesis using round64_2_53 by auto
qed

lemma round64_cases:
  assumes "q \<noteq> 0"
  shows "round64 q = PosInf \<or> round64 q = NegInf \<or>
    round64 q = Fin (of_int (round_half_even
        (q / (if ilog2 \<bar>q\<bar> < - 1022 then 2 powi (- 1074) else 2 powi (ilog2 \<bar>q\<bar> - 52)))) *
      (if ilog2 \<bar>q\<bar> < - 1022 then 2 powi (- 1074) else 2 powi (ilog2 \<bar>q\<bar> - 52)))"
  unfolding round64_def Let_def using assms by (simp only: if_not_P) (meson)

lemma round64_int_cases:
  "round64 (of_int n) = PosInf \<or> round64 (of_int n) = NegInf \<or>
   (\<exists>m. round64 (of_int n) = Fin (of_int m))"
proof (cases "\<bar>n\<bar> < 2 ^ 53")
  case True
  then show ?thesis using round64_small_int by blast
next
  case False
  let ?q = "of_int n :: rat"
  let ?e = "ilog2 \<bar>?q\<bar>"
  from False have n0: "?q \<noteq> 0" by auto
  then have pos: "0 < \<bar>?q\<bar>" by simp
  have "(2::rat) powi 53 = of_int (2 ^ 53)" by (simp add: power_int_def)
  also have "\<dots> \<le> of_int \<bar>n\<bar>" using False by (simp only: of_int_le_iff)
  finally have "(2::rat) powi 53 \<le> \<bar>?q\<bar>" by simp
  then have e53: "53 \<le> ?e" using ilog2_ge[OF pos, of 53] by simp
  then have norm: "\<not> ?e < - 1022" by simp
  have quantum: "(2::rat) powi (?e - 52) = of_int (2 ^ nat (?e - 52))"
    using e53 by (simp add: power_int_def)
  have prod: "of_int m * (2::rat) powi (?e - 52) = of_int (m * 2 ^ nat (?e - 52))" for m
    unfolding quantum by simp
  from round64_cases[OF n0] show ?thesis
    unfolding if_not_P[OF norm] prod by blast
qed


subsection \<open>The operations on integers that binary64 holds exactly\<close>

lemma js_add_int:
  "\<bar>a + b\<bar> \<le> 2 ^ 53 \<Longrightarrow> js_add (js_int a) (js_int b) = js_int (a + b)"
  using round64_exact_int[of "a + b"] by (simp add: js_int_def)

lemma js_sub_int:
  "\<bar>a - b\<bar> \<le> 2 ^ 53 \<Longrightarrow> js_sub (js_int a) (js_int b) = js_int (a - b)"
  using round64_exact_int[of "a - b"] by (simp add: js_int_def js_sub_def)

lemma js_add_one:
  "\<bar>a + 1\<bar> \<le> 2 ^ 53 \<Longrightarrow> js_add (js_int a) (Fin 1) = js_int (a + 1)"
  using js_add_int[of a 1] by (simp add: js_int_def)

lemma js_sub_one:
  "\<bar>a - 1\<bar> \<le> 2 ^ 53 \<Longrightarrow> js_sub (js_int a) (Fin 1) = js_int (a - 1)"
  using js_sub_int[of a 1] by (simp add: js_int_def)

lemma js_neg_int: "js_neg (js_int a) = js_int (- a)"
  by (simp add: js_int_def)

lemma js_mul2_int:
  "\<bar>2 * a\<bar> \<le> 2 ^ 53 \<Longrightarrow> js_mul (Fin 2) (js_int a) = js_int (2 * a)"
  using round64_exact_int[of "2 * a"] by (simp add: js_int_def)

lemma Math_abs_int: "Math_abs (js_int a) = js_int \<bar>a\<bar>"
  by (simp add: js_int_def)

lemma js_lt_int: "js_lt (js_int a) (js_int b) = (a < b)"
  by (simp add: js_int_def)

lemma js_le_int: "js_le (js_int a) (js_int b) = (a \<le> b)"
  by (simp add: js_int_def)

lemma js_gt_int: "js_gt (js_int a) (js_int b) = (b < a)"
  by (simp add: js_int_def js_gt_def)

lemma js_ge_int: "js_ge (js_int a) (js_int b) = (b \<le> a)"
  by (simp add: js_int_def js_ge_def)

lemma js_eq_int: "js_eq (js_int a) (js_int b) = (a = b)"
  by (simp add: js_int_def js_eq_def isNaN_def)

lemma js_lt_zero: "js_lt (js_int a) (Fin 0) = (a < 0)"
  by (simp add: js_int_def)

lemma Math_round_js_int: "Math_round (js_int n) = js_int n"
proof -
  have "\<lfloor>(1 / 2 :: rat)\<rfloor> = 0" by (simp add: floor_eq_iff)
  then have "\<lfloor>(of_int n :: rat) + 1 / 2\<rfloor> = n"
    by (metis add.commute add_0 floor_add_int)
  then show ?thesis by (simp add: js_int_def)
qed


subsection \<open>Bresenham: the invariant on integers\<close>

lemma bresenham_x_step:
  fixes dx dy a b err :: int
  assumes "0 \<le> a" "b \<le> dy" "0 \<le> b" "0 \<le> dx"
    and "err = dx - dy + a * dy - b * dx" and "- dy < 2 * err"
    and "a \<noteq> 0 \<or> b \<noteq> 0"
  shows "0 < a"
proof (rule ccontr)
  assume "\<not> 0 < a"
  with assms have a0: "a = 0" and b1: "1 \<le> b" by auto
  have "dx * (1 - b) \<le> 0"
    using \<open>0 \<le> dx\<close> b1 by (intro mult_nonneg_nonpos) auto
  then have "2 * err + dy \<le> - dy"
    using assms(5) a0 by (simp add: algebra_simps)
  with assms b1 show False by linarith
qed

lemma bresenham_y_step:
  fixes dx dy a b err :: int
  assumes "0 \<le> b" "a \<le> dx" "0 \<le> a" "0 \<le> dy"
    and "err = dx - dy + a * dy - b * dx" and "2 * err < dx"
    and "a \<noteq> 0 \<or> b \<noteq> 0"
  shows "0 < b"
proof (rule ccontr)
  assume "\<not> 0 < b"
  with assms have b0: "b = 0" and a1: "1 \<le> a" by auto
  have "0 \<le> dy * (a - 1)"
    using \<open>0 \<le> dy\<close> a1 by (intro mult_nonneg_nonneg) auto
  then have "dx \<le> 2 * err"
    using assms(5) b0 a1 assms(2) by (simp add: algebra_simps)
  with assms show False by linarith
qed

lemma bresenham_progress:
  fixes dx dy a b err :: int
  assumes "0 \<le> a" "a \<le> dx" "0 \<le> b" "b \<le> dy" "a \<noteq> 0 \<or> b \<noteq> 0"
  shows "- dy < 2 * err \<or> 2 * err < dx"
  using assms by linarith

lemma bres_inv_end:
  "bres_inv x1 y1 dx dy sx sy x y err a b \<Longrightarrow> (x = x1 \<and> y = y1) = (a = 0 \<and> b = 0)"
  unfolding bres_inv_def by auto

lemma bres_inv_next:
  assumes inv: "bres_inv x1 y1 dx dy sx sy x y err a b"
    and more: "\<not> (x = x1 \<and> y = y1)"
  defines "e2 \<equiv> 2 * err"
  defines "err' \<equiv> (if e2 > - dy then err - dy else err)"
  defines "x' \<equiv> (if e2 > - dy then x + sx else x)"
  defines "err'' \<equiv> (if e2 < dx then err' + dx else err')"
  defines "y' \<equiv> (if e2 < dx then y + sy else y)"
  defines "a' \<equiv> (if e2 > - dy then a - 1 else a)"
  defines "b' \<equiv> (if e2 < dx then b - 1 else b)"
  shows "bres_inv x1 y1 dx dy sx sy x' y' err'' a' b'"
    and "nat (a' + b') < nat (a + b)"
    and "\<bar>x' - x\<bar> \<le> 1" and "\<bar>y' - y\<bar> \<le> 1"
    and "a' + b' + 1 \<le> a + b"
proof -
  from inv have bnd: "0 \<le> a" "a \<le> dx" "0 \<le> b" "b \<le> dy"
    and sg: "sx = 1 \<or> sx = - 1" "sy = 1 \<or> sy = - 1"
    and tgt: "x1 = x + sx * a" "y1 = y + sy * b"
    and e: "err = dx - dy + a * dy - b * dx"
    and band: "- 3 * dy \<le> 2 * err" "2 * err \<le> 3 * dx"
    unfolding bres_inv_def by auto
  from more bres_inv_end[OF inv] have ne: "a \<noteq> 0 \<or> b \<noteq> 0" by auto
  have xs: "0 < a" if "- dy < e2"
    using bresenham_x_step[of a b dy dx err] bnd e ne that unfolding e2_def by linarith
  have ys: "0 < b" if "e2 < dx"
    using bresenham_y_step[of b a dx dy err] bnd e ne that unfolding e2_def by linarith
  have pr: "- dy < e2 \<or> e2 < dx"
    using bresenham_progress[of a dx b dy err] bnd ne unfolding e2_def by blast
  have a'b: "0 \<le> a'" "a' \<le> dx" "0 \<le> b'" "b' \<le> dy"
    using xs ys bnd unfolding a'_def b'_def by auto
  have tx: "x1 = x' + sx * a'"
    using tgt(1) unfolding x'_def a'_def by (simp add: algebra_simps)
  have ty: "y1 = y' + sy * b'"
    using tgt(2) unfolding y'_def b'_def by (simp add: algebra_simps)
  have ee: "err'' = dx - dy + a' * dy - b' * dx"
    using e unfolding err''_def err'_def a'_def b'_def by (simp add: algebra_simps)
  have d0: "0 \<le> dx" "0 \<le> dy" using bnd by auto
  have lo: "- 3 * dy \<le> 2 * err''"
    using band d0 unfolding err''_def err'_def e2_def by auto
  have hi: "2 * err'' \<le> 3 * dx"
    using band d0 unfolding err''_def err'_def e2_def by auto
  show "bres_inv x1 y1 dx dy sx sy x' y' err'' a' b'"
    unfolding bres_inv_def using a'b sg tx ty ee lo hi by simp
  show "nat (a' + b') < nat (a + b)"
    using pr xs ys bnd unfolding a'_def b'_def by auto
  show "\<bar>x' - x\<bar> \<le> 1" using sg unfolding x'_def by auto
  show "\<bar>y' - y\<bar> \<le> 1" using sg unfolding y'_def by auto
  show "a' + b' + 1 \<le> a + b"
    using pr xs ys bnd unfolding a'_def b'_def by auto
qed

lemma bres_inv_init:
  "bres_inv x1 y1 (abs (x1 - x0)) (abs (y1 - y0))
     (if x0 < x1 then 1 else - 1) (if y0 < y1 then 1 else - 1)
     x0 y0 (abs (x1 - x0) - abs (y1 - y0)) (abs (x1 - x0)) (abs (y1 - y0))"
  unfolding bres_inv_def by (auto simp: algebra_simps)

text \<open>What the invariant and the range of the end point give for the size of the numbers.\<close>

lemma bres_inv_sizes:
  assumes inv: "bres_inv x1 y1 dx dy sx sy x y err a b"
    and range: "\<bar>x1\<bar> \<le> 2 ^ 28" "\<bar>y1\<bar> \<le> 2 ^ 28" "dx \<le> 2 ^ 29" "dy \<le> 2 ^ 29"
  shows "0 \<le> dx" "0 \<le> dy" "\<bar>x\<bar> \<le> 2 ^ 30" "\<bar>y\<bar> \<le> 2 ^ 30" "\<bar>err\<bar> \<le> 2 ^ 30"
    "\<bar>sx\<bar> = 1" "\<bar>sy\<bar> = 1"
proof -
  from inv have bnd: "0 \<le> a" "a \<le> dx" "0 \<le> b" "b \<le> dy"
    and sg: "sx = 1 \<or> sx = - 1" "sy = 1 \<or> sy = - 1"
    and tgt: "x1 = x + sx * a" "y1 = y + sy * b"
    and band: "- 3 * dy \<le> 2 * err" "2 * err \<le> 3 * dx"
    unfolding bres_inv_def by auto
  show "0 \<le> dx" "0 \<le> dy" using bnd by auto
  show "\<bar>x\<bar> \<le> 2 ^ 30" using sg(1) tgt(1) bnd range by auto
  show "\<bar>y\<bar> \<le> 2 ^ 30" using sg(2) tgt(2) bnd range by auto
  show "\<bar>err\<bar> \<le> 2 ^ 30" using band range bnd by auto
  show "\<bar>sx\<bar> = 1" "\<bar>sy\<bar> = 1" using sg by auto
qed

subsection \<open>Bresenham: the loop on integers in range\<close>

lemma bresenhamLine_loop_stop:
  "bresenhamLine_loop (js_int x1) (js_int y1) dx dy sx sy (js_int x1) (js_int y1) err i pixels =
     Some (pixels @ [\<lparr>px = js_int x1, py = js_int y1,
                       info = BresenhamStep i (js_int x1) (js_int y1) err\<rparr>])"
  by (subst bresenhamLine_loop.simps) (simp add: Let_def js_eq_int)

lemma bresenhamLine_loop_unfold:
  assumes inv: "bres_inv x1 y1 dx dy sx sy x y err a b"
    and range: "\<bar>x1\<bar> \<le> 2 ^ 28" "\<bar>y1\<bar> \<le> 2 ^ 28" "dx \<le> 2 ^ 29" "dy \<le> 2 ^ 29"
    and i: "0 \<le> i" "i \<le> 2 ^ 31"
    and more: "\<not> (x = x1 \<and> y = y1)"
  shows "bresenhamLine_loop (js_int x1) (js_int y1) (js_int dx) (js_int dy) (js_int sx) (js_int sy)
           (js_int x) (js_int y) (js_int err) (js_int i) pixels =
     bresenhamLine_loop (js_int x1) (js_int y1) (js_int dx) (js_int dy) (js_int sx) (js_int sy)
       (js_int (if 2 * err > - dy then x + sx else x))
       (js_int (if 2 * err < dx then y + sy else y))
       (js_int (if 2 * err < dx then (if 2 * err > - dy then err - dy else err) + dx
                else (if 2 * err > - dy then err - dy else err)))
       (js_int (i + 1))
       (pixels @ [\<lparr>px = js_int x, py = js_int y,
                   info = BresenhamStep (js_int i) (js_int x) (js_int y) (js_int err)\<rparr>])"
proof -
  note s = bres_inv_sizes[OF inv range]
  have e2: "js_mul (Fin 2) (js_int err) = js_int (2 * err)"
    using s by (intro js_mul2_int) auto
  have ed: "js_sub (js_int err) (js_int dy) = js_int (err - dy)"
    using s range by (intro js_sub_int) auto
  have xs: "js_add (js_int x) (js_int sx) = js_int (x + sx)"
    using s by (intro js_add_int) auto
  have ys: "js_add (js_int y) (js_int sy) = js_int (y + sy)"
    using s by (intro js_add_int) auto
  have e1: "js_add (js_int (err - dy)) (js_int dx) = js_int (err - dy + dx)"
    using s range by (intro js_add_int) auto
  have e0: "js_add (js_int err) (js_int dx) = js_int (err + dx)"
    using s range by (intro js_add_int) auto
  have ii: "js_add (js_int i) (Fin 1) = js_int (i + 1)"
    using i by (intro js_add_one) auto
  from more have ne: "\<not> (js_eq (js_int x) (js_int x1) \<and> js_eq (js_int y) (js_int y1))"
    by (simp add: js_eq_int)
  show ?thesis
    by (subst bresenhamLine_loop.simps)
      (simp add: Let_def ne e2 ed xs ys e1 e0 ii js_neg_int js_gt_int js_lt_int)
qed

lemma bresenhamLine_loop_result:
  assumes "bres_inv x1 y1 dx dy sx sy x y err a b"
    and "\<bar>x1\<bar> \<le> 2 ^ 28" "\<bar>y1\<bar> \<le> 2 ^ 28" "dx \<le> 2 ^ 29" "dy \<le> 2 ^ 29"
    and "0 \<le> i" "i + a + b \<le> 2 ^ 30"
  shows "\<exists>ps pts. bresenhamLine_loop (js_int x1) (js_int y1) (js_int dx) (js_int dy)
             (js_int sx) (js_int sy) (js_int x) (js_int y) (js_int err) (js_int i) acc
             = Some (acc @ ps) \<and>
           map position ps = map js_point pts \<and>
           pts \<noteq> [] \<and> hd pts = (x, y) \<and> last pts = (x1, y1) \<and>
           connected8 pts \<and> length pts \<le> nat (a + b) + 1"
  using assms
proof (induction "nat (a + b)" arbitrary: a b x y err i acc rule: less_induct)
  case less
  note inv = less.prems(1) and range = less.prems(2-5) and i = less.prems(6,7)
  from inv have ab: "0 \<le> a" "0 \<le> b" unfolding bres_inv_def by auto
  show ?case
  proof (cases "x = x1 \<and> y = y1")
    case True
    let ?p = "\<lparr>px = js_int x1, py = js_int y1,
               info = BresenhamStep (js_int i) (js_int x1) (js_int y1) (js_int err)\<rparr>"
    have "bresenhamLine_loop (js_int x1) (js_int y1) (js_int dx) (js_int dy)
             (js_int sx) (js_int sy) (js_int x) (js_int y) (js_int err) (js_int i) acc
             = Some (acc @ [?p])"
      using True bresenhamLine_loop_stop by simp
    moreover have "map position [?p] = map js_point [(x1, y1)]"
      by (simp add: position_def js_point_def)
    ultimately show ?thesis
      using True by (intro exI[of _ "[?p]"] exI[of _ "[(x1, y1)]"]) simp
  next
    case False
    let ?x = "if 2 * err > - dy then x + sx else x"
    let ?y = "if 2 * err < dx then y + sy else y"
    let ?e = "if 2 * err < dx then (if 2 * err > - dy then err - dy else err) + dx
        else (if 2 * err > - dy then err - dy else err)"
    let ?a = "if 2 * err > - dy then a - 1 else a"
    let ?b = "if 2 * err < dx then b - 1 else b"
    let ?p = "\<lparr>px = js_int x, py = js_int y,
               info = BresenhamStep (js_int i) (js_int x) (js_int y) (js_int err)\<rparr>"
    note nx = bres_inv_next[OF inv False]
    have i': "0 \<le> i + 1" "i + 1 + ?a + ?b \<le> 2 ^ 30"
      using i nx(5) by auto
    have i31: "i \<le> 2 ^ 31" using i ab by auto
    from less.hyps[OF nx(2) nx(1) range i', of "acc @ [?p]"]
    obtain ps pts where ps: "bresenhamLine_loop (js_int x1) (js_int y1) (js_int dx) (js_int dy)
          (js_int sx) (js_int sy) (js_int ?x) (js_int ?y) (js_int ?e) (js_int (i + 1)) (acc @ [?p])
          = Some ((acc @ [?p]) @ ps)"
      and m: "map position ps = map js_point pts"
      and ne: "pts \<noteq> []" and h: "hd pts = (?x, ?y)"
      and l: "last pts = (x1, y1)" and c: "connected8 pts"
      and len: "length pts \<le> nat (?a + ?b) + 1"
      by blast
    have run: "bresenhamLine_loop (js_int x1) (js_int y1) (js_int dx) (js_int dy)
          (js_int sx) (js_int sy) (js_int x) (js_int y) (js_int err) (js_int i) acc
          = Some (acc @ ?p # ps)"
      using bresenhamLine_loop_unfold[OF inv range i(1) i31 False, of acc] ps by simp
    have m': "map position (?p # ps) = map js_point ((x, y) # pts)"
      using m by (simp add: position_def js_point_def)
    obtain q qs where qs: "pts = q # qs" using ne by (cases pts) auto
    have conn: "connected8 ((x, y) # pts)"
      using c h nx(3,4) unfolding qs by (simp add: abs_minus_commute)
    have "length ((x, y) # pts) \<le> nat (a + b) + 1"
    proof -
      have "\<And>m n k::nat. k \<le> m + 1 \<Longrightarrow> m < n \<Longrightarrow> Suc k \<le> n + 1" by simp
      from this[OF len nx(2)] show ?thesis by simp
    qed
    with run m' ne l conn show ?thesis
      by (intro exI[of _ "?p # ps"] exI[of _ "(x, y) # pts"]) simp
  qed
qed

lemma bresenhamLine_setup:
  assumes "coordinate x0" "coordinate y0" "coordinate x1" "coordinate y1"
  shows "bresenhamLine (js_int x0) (js_int y0) (js_int x1) (js_int y1) =
     bresenhamLine_loop (js_int x1) (js_int y1) (js_int \<bar>x1 - x0\<bar>) (js_int \<bar>y1 - y0\<bar>)
       (js_int (if x0 < x1 then 1 else - 1)) (js_int (if y0 < y1 then 1 else - 1))
       (js_int x0) (js_int y0) (js_int (\<bar>x1 - x0\<bar> - \<bar>y1 - y0\<bar>)) (js_int 0) []"
proof -
  from assms have r: "\<bar>x0\<bar> \<le> 2 ^ 28" "\<bar>y0\<bar> \<le> 2 ^ 28" "\<bar>x1\<bar> \<le> 2 ^ 28" "\<bar>y1\<bar> \<le> 2 ^ 28"
    unfolding coordinate_def by auto
  have dx: "js_sub (js_int x1) (js_int x0) = js_int (x1 - x0)"
    using r by (intro js_sub_int) auto
  have dy: "js_sub (js_int y1) (js_int y0) = js_int (y1 - y0)"
    using r by (intro js_sub_int) auto
  have e: "js_sub (js_int \<bar>x1 - x0\<bar>) (js_int \<bar>y1 - y0\<bar>) = js_int (\<bar>x1 - x0\<bar> - \<bar>y1 - y0\<bar>)"
    using r by (intro js_sub_int) auto
  have sg: "(if c then Fin 1 else Fin (- 1)) = js_int (if c then 1 else - 1)" for c
    by (simp add: js_int_def)
  show ?thesis
    unfolding bresenhamLine_def Let_def dx dy Math_abs_int e js_lt_int sg
    by (simp add: js_int_def)
qed

lemma bresenhamLine_result:
  assumes "coordinate x0" "coordinate y0" "coordinate x1" "coordinate y1"
  shows "\<exists>ps pts. bresenhamLine (js_int x0) (js_int y0) (js_int x1) (js_int y1) = Some ps \<and>
     map position ps = map js_point pts \<and> pts \<noteq> [] \<and>
     hd pts = (x0, y0) \<and> last pts = (x1, y1) \<and> connected8 pts \<and>
     length pts \<le> nat (\<bar>x1 - x0\<bar> + \<bar>y1 - y0\<bar>) + 1"
proof -
  from assms have r: "\<bar>x0\<bar> \<le> 2 ^ 28" "\<bar>y0\<bar> \<le> 2 ^ 28" "\<bar>x1\<bar> \<le> 2 ^ 28" "\<bar>y1\<bar> \<le> 2 ^ 28"
    unfolding coordinate_def by auto
  have d: "\<bar>x1 - x0\<bar> \<le> 2 ^ 29" "\<bar>y1 - y0\<bar> \<le> 2 ^ 29" using r by auto
  have s: "(0::int) \<le> 0" "0 + \<bar>x1 - x0\<bar> + \<bar>y1 - y0\<bar> \<le> 2 ^ 30" using d by auto
  from bresenhamLine_loop_result[OF bres_inv_init r(3,4) d s, where acc = "[]"]
  show ?thesis unfolding bresenhamLine_setup[OF assms] by simp
qed

subsection \<open>Induction over a run that returns\<close>

lemma bresenhamLine_loop_induct:
  assumes run: "bresenhamLine_loop x1 y1 dx dy sx sy x y err i pixels = Some r"
    and step: "\<And>f x1 y1 dx dy sx sy x y err i pixels r.
      (\<And>x1 y1 dx dy sx sy x y err i pixels r.
          f x1 y1 dx dy sx sy x y err i pixels = Some r \<Longrightarrow> P x1 y1 dx dy sx sy x y err i pixels r) \<Longrightarrow>
      (let pixels' = pixels @ [\<lparr>px = x, py = y, info = BresenhamStep i x y err\<rparr>] in
       if js_eq x x1 \<and> js_eq y y1 then Some pixels'
       else
         let e2 = js_mul (Fin 2) err;
             err' = (if js_gt e2 (js_neg dy) then js_sub err dy else err);
             x' = (if js_gt e2 (js_neg dy) then js_add x sx else x);
             err'' = (if js_lt e2 dx then js_add err' dx else err');
             y' = (if js_lt e2 dx then js_add y sy else y)
         in f x1 y1 dx dy sx sy x' y' err'' (js_add i (Fin 1)) pixels') = Some r \<Longrightarrow>
      P x1 y1 dx dy sx sy x y err i pixels r"
  shows "P x1 y1 dx dy sx sy x y err i pixels r"
proof -
  note r = bresenhamLine_loop.raw_induct[where P = P
      and xa = "((((((((((x1, y1), dx), dy), sx), sy), x), y), err), i), pixels)" and ya = r,
      unfolded prod.case]
  show ?thesis
  proof (rule r[OF _ run])
    fix f x1 y1 dx dy sx sy x y err i pixels r
    assume "\<And>x1 y1 dx dy sx sy x y err i pixels r.
          f x1 y1 dx dy sx sy x y err i pixels = Some r \<Longrightarrow> P x1 y1 dx dy sx sy x y err i pixels r"
      and "(let pixels' = pixels @ [\<lparr>px = x, py = y, info = BresenhamStep i x y err\<rparr>] in
       if js_eq x x1 \<and> js_eq y y1 then Some pixels'
       else
         let e2 = js_mul (Fin 2) err;
             err' = (if js_gt e2 (js_neg dy) then js_sub err dy else err);
             x' = (if js_gt e2 (js_neg dy) then js_add x sx else x);
             err'' = (if js_lt e2 dx then js_add err' dx else err');
             y' = (if js_lt e2 dx then js_add y sy else y)
         in f x1 y1 dx dy sx sy x' y' err'' (js_add i (Fin 1)) pixels') = Some r"
    then show "P x1 y1 dx dy sx sy x y err i pixels r" by (rule step)
  qed
qed


lemma round64_numerals:
  "round64 0 = Fin 0" "round64 1 = Fin 1" "round64 2 = Fin 2" "round64 4 = Fin 4" "round64 (1 / 2) = Fin (1 / 2)"
  "round64 9007199254740993 = Fin 9007199254740992"
  "round64 9007199254740994 = Fin 9007199254740994"
  by code_simp+

lemma bresenhamLine_loop_stuck:
  "bresenhamLine_loop (Fin (2 ^ 53 + 2)) (Fin 0) (Fin 2) (Fin 0) (Fin 1) (Fin (- 1))
     (Fin (2 ^ 53)) (Fin 0) (Fin 2) i pixels = None"
proof (rule ccontr)
  assume "bresenhamLine_loop (Fin (2 ^ 53 + 2)) (Fin 0) (Fin 2) (Fin 0) (Fin 1) (Fin (- 1))
     (Fin (2 ^ 53)) (Fin 0) (Fin 2) i pixels \<noteq> None"
  then obtain r where run: "bresenhamLine_loop (Fin (2 ^ 53 + 2)) (Fin 0) (Fin 2) (Fin 0) (Fin 1)
     (Fin (- 1)) (Fin (2 ^ 53)) (Fin 0) (Fin 2) i pixels = Some r"
    by auto
  let ?P = "\<lambda>x1 y1 dx dy sx sy x y err (i::jsnum) (pixels::pixel list) (r::pixel list).
      \<not> (x1 = Fin (2 ^ 53 + 2) \<and> y1 = Fin 0 \<and> dx = Fin 2 \<and> dy = Fin 0 \<and> sx = Fin 1 \<and>
         sy = Fin (- 1) \<and> x = Fin (2 ^ 53) \<and> y = Fin 0 \<and> err = Fin 2)"
  have "?P (Fin (2 ^ 53 + 2)) (Fin 0) (Fin 2) (Fin 0) (Fin 1) (Fin (- 1))
     (Fin (2 ^ 53)) (Fin 0) (Fin 2) i pixels r"
  proof (rule bresenhamLine_loop_induct[OF run, where P = ?P])
    fix f x1 y1 dx dy sx sy x y err i and pixels r :: "pixel list"
    assume IH: "\<And>x1 y1 dx dy sx sy x y err i pixels r.
          f x1 y1 dx dy sx sy x y err i pixels = Some r \<Longrightarrow> ?P x1 y1 dx dy sx sy x y err i pixels r"
      and body: "(let pixels' = pixels @ [\<lparr>px = x, py = y, info = BresenhamStep i x y err\<rparr>] in
       if js_eq x x1 \<and> js_eq y y1 then Some pixels'
       else
         let e2 = js_mul (Fin 2) err;
             err' = (if js_gt e2 (js_neg dy) then js_sub err dy else err);
             x' = (if js_gt e2 (js_neg dy) then js_add x sx else x);
             err'' = (if js_lt e2 dx then js_add err' dx else err');
             y' = (if js_lt e2 dx then js_add y sy else y)
         in f x1 y1 dx dy sx sy x' y' err'' (js_add i (Fin 1)) pixels') = Some r"
    show "?P x1 y1 dx dy sx sy x y err i pixels r"
    proof
      assume c: "x1 = Fin (2 ^ 53 + 2) \<and> y1 = Fin 0 \<and> dx = Fin 2 \<and> dy = Fin 0 \<and> sx = Fin 1 \<and>
         sy = Fin (- 1) \<and> x = Fin (2 ^ 53) \<and> y = Fin 0 \<and> err = Fin 2"
      from body c have "f x1 y1 dx dy sx sy x y err (js_add i (Fin 1))
          (pixels @ [\<lparr>px = x, py = y, info = BresenhamStep i x y err\<rparr>]) = Some r"
        by (simp add: Let_def js_eq_def js_gt_def js_sub_def round64_numerals)
      from IH[OF this] c show False by blast
    qed
  qed
  then show False by simp
qed

lemma bresenhamLine_overflow_example:
  "bresenhamLine (Fin (2 ^ 53)) (Fin 0) (Fin (2 ^ 53 + 2)) (Fin 0) = None"
proof -
  have "bresenhamLine (Fin (2 ^ 53)) (Fin 0) (Fin (2 ^ 53 + 2)) (Fin 0) =
    bresenhamLine_loop (Fin (2 ^ 53 + 2)) (Fin 0) (Fin 2) (Fin 0) (Fin 1) (Fin (- 1))
     (Fin (2 ^ 53)) (Fin 0) (Fin 2) (Fin 0) []"
    by (simp add: bresenhamLine_def Let_def js_sub_def round64_numerals)
  then show ?thesis by (simp only: bresenhamLine_loop_stuck)
qed


lemma bresenhamLinePixels_loop_induct:
  assumes run: "bresenhamLinePixels_loop x1 y1 w h dx dy sx sy x y err pixels = Some r"
    and step: "\<And>f x1 y1 w h dx dy sx sy x y err pixels r.
      (\<And>x1 y1 w h dx dy sx sy x y err pixels r.
          f x1 y1 w h dx dy sx sy x y err pixels = Some r \<Longrightarrow> P x1 y1 w h dx dy sx sy x y err pixels r) \<Longrightarrow>
      (let pixels' =
            (if js_ge x (Fin 0) \<and> js_lt x w \<and> js_ge y (Fin 0) \<and> js_lt y h
             then pixels @ [(Math_round x, Math_round y)] else pixels) in
       if js_eq x x1 \<and> js_eq y y1 then Some pixels'
       else
         let e2 = js_mul (Fin 2) err;
             err' = (if js_gt e2 (js_neg dy) then js_sub err dy else err);
             x' = (if js_gt e2 (js_neg dy) then js_add x sx else x);
             err'' = (if js_lt e2 dx then js_add err' dx else err');
             y' = (if js_lt e2 dx then js_add y sy else y)
         in f x1 y1 w h dx dy sx sy x' y' err'' pixels') = Some r \<Longrightarrow>
      P x1 y1 w h dx dy sx sy x y err pixels r"
  shows "P x1 y1 w h dx dy sx sy x y err pixels r"
proof -
  note r = bresenhamLinePixels_loop.raw_induct[where P = P
      and xa = "(((((((((((x1, y1), w), h), dx), dy), sx), sy), x), y), err), pixels)" and ya = r,
      unfolded prod.case]
  show ?thesis
  proof (rule r[OF _ run])
    fix f x1 y1 w h dx dy sx sy x y err pixels r
    assume "\<And>x1 y1 w h dx dy sx sy x y err pixels r.
          f x1 y1 w h dx dy sx sy x y err pixels = Some r \<Longrightarrow> P x1 y1 w h dx dy sx sy x y err pixels r"
      and "(let pixels' =
            (if js_ge x (Fin 0) \<and> js_lt x w \<and> js_ge y (Fin 0) \<and> js_lt y h
             then pixels @ [(Math_round x, Math_round y)] else pixels) in
       if js_eq x x1 \<and> js_eq y y1 then Some pixels'
       else
         let e2 = js_mul (Fin 2) err;
             err' = (if js_gt e2 (js_neg dy) then js_sub err dy else err);
             x' = (if js_gt e2 (js_neg dy) then js_add x sx else x);
             err'' = (if js_lt e2 dx then js_add err' dx else err');
             y' = (if js_lt e2 dx then js_add y sy else y)
         in f x1 y1 w h dx dy sx sy x' y' err'' pixels') = Some r"
    then show "P x1 y1 w h dx dy sx sy x y err pixels r" by (rule step)
  qed
qed

lemma ddaLine_loop_induct:
  assumes run: "ddaLine_loop steps xIncrement yIncrement x y i pixels = Some r"
    and step: "\<And>f steps xIncrement yIncrement x y i pixels r.
      (\<And>steps xIncrement yIncrement x y i pixels r.
          f steps xIncrement yIncrement x y i pixels = Some r \<Longrightarrow>
          P steps xIncrement yIncrement x y i pixels r) \<Longrightarrow>
      (if js_le i steps then
         f steps xIncrement yIncrement (js_add x xIncrement) (js_add y yIncrement)
           (js_add i (Fin 1))
           (pixels @ [\<lparr>px = Math_round x, py = Math_round y, info = DDAStep i x y\<rparr>])
       else Some pixels) = Some r \<Longrightarrow>
      P steps xIncrement yIncrement x y i pixels r"
  shows "P steps xIncrement yIncrement x y i pixels r"
proof -
  note r = ddaLine_loop.raw_induct[where P = P
      and xa = "((((((steps, xIncrement), yIncrement), x), y), i), pixels)" and ya = r,
      unfolded prod.case]
  show ?thesis
  proof (rule r[OF _ run])
    fix f steps xIncrement yIncrement x y i pixels r
    assume "\<And>steps xIncrement yIncrement x y i pixels r.
          f steps xIncrement yIncrement x y i pixels = Some r \<Longrightarrow>
          P steps xIncrement yIncrement x y i pixels r"
      and "(if js_le i steps then
         f steps xIncrement yIncrement (js_add x xIncrement) (js_add y yIncrement)
           (js_add i (Fin 1))
           (pixels @ [\<lparr>px = Math_round x, py = Math_round y, info = DDAStep i x y\<rparr>])
       else Some pixels) = Some r"
    then show "P steps xIncrement yIncrement x y i pixels r" by (rule step)
  qed
qed

subsection \<open>Whole numbers stay whole\<close>

lemma Math_round_fixed_cases:
  assumes "Math_round v = v"
  shows "v = NaN \<or> v = PosInf \<or> v = NegInf \<or> (\<exists>n. v = js_int n)"
proof (cases v)
  case (Fin a)
  with assms have "a = of_int \<lfloor>a + 1 / 2\<rfloor>" by simp
  then have "v = js_int \<lfloor>a + 1 / 2\<rfloor>" unfolding js_int_def Fin by simp
  then show ?thesis by blast
qed auto

lemma Math_round_round64_int: "Math_round (round64 (of_int n)) = round64 (of_int n)"
  using round64_int_cases[of n] Math_round_js_int unfolding js_int_def by auto

lemma Math_round_add_unit:
  assumes "Math_round v = v" "s = Fin 1 \<or> s = Fin (- 1)"
  shows "Math_round (js_add v s) = js_add v s"
proof -
  from Math_round_fixed_cases[OF assms(1)] consider
    "v = NaN" | "v = PosInf" | "v = NegInf" | n where "v = js_int n" by blast
  then show ?thesis
  proof cases
    case 4
    have "js_add v s = round64 (of_int (n + 1)) \<or> js_add v s = round64 (of_int (n - 1))"
      using assms(2) unfolding 4 js_int_def by auto
    then show ?thesis using Math_round_round64_int by metis
  qed (use assms(2) in auto)
qed

lemma Math_round_idem: "Math_round (Math_round v) = Math_round v"
  using Math_round_js_int[of "\<lfloor>a + 1 / 2\<rfloor>" for a] unfolding js_int_def
  by (cases v) auto

subsection \<open>The two Bresenham loops side by side\<close>

lemma bresenhamLine_loop_next:
  "bresenhamLine_loop x1 y1 dx dy sx sy x y err i pixels =
     (if js_eq x x1 \<and> js_eq y y1
      then Some (pixels @ [\<lparr>px = x, py = y, info = BresenhamStep i x y err\<rparr>])
      else bresenhamLine_loop x1 y1 dx dy sx sy
        (if js_gt (js_mul (Fin 2) err) (js_neg dy) then js_add x sx else x)
        (if js_lt (js_mul (Fin 2) err) dx then js_add y sy else y)
        (if js_lt (js_mul (Fin 2) err) dx
         then js_add (if js_gt (js_mul (Fin 2) err) (js_neg dy) then js_sub err dy else err) dx
         else (if js_gt (js_mul (Fin 2) err) (js_neg dy) then js_sub err dy else err))
        (js_add i (Fin 1))
        (pixels @ [\<lparr>px = x, py = y, info = BresenhamStep i x y err\<rparr>]))"
  by (subst bresenhamLine_loop.simps) (simp add: Let_def)

lemma bresenhamLinePixels_loop_next:
  assumes "Math_round x = x" "Math_round y = y"
  shows "bresenhamLinePixels_loop x1 y1 w h dx dy sx sy x y err pixels =
     (if js_eq x x1 \<and> js_eq y y1
      then Some (pixels @ filter (in_bounds w h) [(x, y)])
      else bresenhamLinePixels_loop x1 y1 w h dx dy sx sy
        (if js_gt (js_mul (Fin 2) err) (js_neg dy) then js_add x sx else x)
        (if js_lt (js_mul (Fin 2) err) dx then js_add y sy else y)
        (if js_lt (js_mul (Fin 2) err) dx
         then js_add (if js_gt (js_mul (Fin 2) err) (js_neg dy) then js_sub err dy else err) dx
         else (if js_gt (js_mul (Fin 2) err) (js_neg dy) then js_sub err dy else err))
        (pixels @ filter (in_bounds w h) [(x, y)]))"
  by (subst bresenhamLinePixels_loop.simps) (simp add: Let_def in_bounds_def assms)

lemma bresenham_line_to_pixels:
  assumes run: "bresenhamLine_loop x1 y1 dx dy sx sy x y err i acc = Some r"
    and whole: "Math_round x = x" "Math_round y = y"
    and unit: "sx = Fin 1 \<or> sx = Fin (- 1)" "sy = Fin 1 \<or> sy = Fin (- 1)"
  shows "\<exists>ps. r = acc @ ps \<and>
           (\<forall>acc'. bresenhamLinePixels_loop x1 y1 w h dx dy sx sy x y err acc' =
              Some (acc' @ filter (in_bounds w h) (map position ps)))"
proof -
  let ?P = "\<lambda>x1 y1 dx dy sx sy x y err (i::jsnum) acc r.
      Math_round x = x \<longrightarrow> Math_round y = y \<longrightarrow>
      (sx = Fin 1 \<or> sx = Fin (- 1)) \<longrightarrow> (sy = Fin 1 \<or> sy = Fin (- 1)) \<longrightarrow>
      (\<exists>ps. r = acc @ ps \<and>
           (\<forall>acc'. bresenhamLinePixels_loop x1 y1 w h dx dy sx sy x y err acc' =
              Some (acc' @ filter (in_bounds w h) (map position ps))))"
  have "?P x1 y1 dx dy sx sy x y err i acc r"
  proof (rule bresenhamLine_loop_induct[OF run, where P = ?P])
    fix f x1 y1 dx dy sx sy x y err i and pixels r :: "pixel list"
    let ?x = "if js_gt (js_mul (Fin 2) err) (js_neg dy) then js_add x sx else x"
    let ?y = "if js_lt (js_mul (Fin 2) err) dx then js_add y sy else y"
    let ?e = "if js_lt (js_mul (Fin 2) err) dx
         then js_add (if js_gt (js_mul (Fin 2) err) (js_neg dy) then js_sub err dy else err) dx
         else (if js_gt (js_mul (Fin 2) err) (js_neg dy) then js_sub err dy else err)"
    let ?p = "\<lparr>px = x, py = y, info = BresenhamStep i x y err\<rparr>"
    assume IH: "\<And>x1 y1 dx dy sx sy x y err i pixels r.
          f x1 y1 dx dy sx sy x y err i pixels = Some r \<Longrightarrow> ?P x1 y1 dx dy sx sy x y err i pixels r"
      and body: "(let pixels' = pixels @ [\<lparr>px = x, py = y, info = BresenhamStep i x y err\<rparr>] in
       if js_eq x x1 \<and> js_eq y y1 then Some pixels'
       else
         let e2 = js_mul (Fin 2) err;
             err' = (if js_gt e2 (js_neg dy) then js_sub err dy else err);
             x' = (if js_gt e2 (js_neg dy) then js_add x sx else x);
             err'' = (if js_lt e2 dx then js_add err' dx else err');
             y' = (if js_lt e2 dx then js_add y sy else y)
         in f x1 y1 dx dy sx sy x' y' err'' (js_add i (Fin 1)) pixels') = Some r"
    show "?P x1 y1 dx dy sx sy x y err i pixels r"
    proof (intro impI)
      assume wx: "Math_round x = x" and wy: "Math_round y = y"
        and ux: "sx = Fin 1 \<or> sx = Fin (- 1)" and uy: "sy = Fin 1 \<or> sy = Fin (- 1)"
      note nxt = bresenhamLinePixels_loop_next[OF wx wy, of x1 y1 w h dx dy sx sy err]
      show "\<exists>ps. r = pixels @ ps \<and>
           (\<forall>acc'. bresenhamLinePixels_loop x1 y1 w h dx dy sx sy x y err acc' =
              Some (acc' @ filter (in_bounds w h) (map position ps)))"
      proof (cases "js_eq x x1 \<and> js_eq y y1")
        case True
        with body have "r = pixels @ [?p]" by (simp add: Let_def)
        moreover have "bresenhamLinePixels_loop x1 y1 w h dx dy sx sy x y err acc' =
              Some (acc' @ filter (in_bounds w h) (map position [?p]))" for acc'
          using nxt[of acc'] True by (simp add: position_def)
        ultimately show ?thesis by blast
      next
        case False
        with body have "f x1 y1 dx dy sx sy ?x ?y ?e (js_add i (Fin 1)) (pixels @ [?p]) = Some r"
          by (simp add: Let_def)
        from IH[OF this] have "?P x1 y1 dx dy sx sy ?x ?y ?e (js_add i (Fin 1)) (pixels @ [?p]) r" .
        moreover have "Math_round ?x = ?x" using Math_round_add_unit[OF wx ux] wx by simp
        moreover have "Math_round ?y = ?y" using Math_round_add_unit[OF wy uy] wy by simp
        ultimately obtain ps where r: "r = (pixels @ [?p]) @ ps"
          and px: "\<And>acc'. bresenhamLinePixels_loop x1 y1 w h dx dy sx sy ?x ?y ?e acc' =
              Some (acc' @ filter (in_bounds w h) (map position ps))"
          using ux uy by blast
        have "bresenhamLinePixels_loop x1 y1 w h dx dy sx sy x y err acc' =
              Some (acc' @ filter (in_bounds w h) (map position (?p # ps)))" for acc'
          using nxt[of acc'] False px[of "acc' @ filter (in_bounds w h) [(x, y)]"]
          by (simp add: position_def)
        with r show ?thesis by (intro exI[of _ "?p # ps"]) simp
      qed
    qed
  qed
  with whole unit show ?thesis by blast
qed

lemma bresenham_pixels_to_line:
  assumes run: "bresenhamLinePixels_loop x1 y1 w h dx dy sx sy x y err acc' = Some r'"
  shows "\<exists>r. bresenhamLine_loop x1 y1 dx dy sx sy x y err i acc = Some r"
proof -
  let ?P = "\<lambda>x1 y1 (w::jsnum) (h::jsnum) dx dy sx sy x y err (acc'::jspoint list)
      (r'::jspoint list).
      \<forall>i acc. \<exists>r. bresenhamLine_loop x1 y1 dx dy sx sy x y err i acc = Some r"
  have "?P x1 y1 w h dx dy sx sy x y err acc' r'"
  proof (rule bresenhamLinePixels_loop_induct[OF run, where P = ?P])
    fix f x1 y1 w h dx dy sx sy x y err and pixels r :: "jspoint list"
    let ?x = "if js_gt (js_mul (Fin 2) err) (js_neg dy) then js_add x sx else x"
    let ?y = "if js_lt (js_mul (Fin 2) err) dx then js_add y sy else y"
    let ?e = "if js_lt (js_mul (Fin 2) err) dx
         then js_add (if js_gt (js_mul (Fin 2) err) (js_neg dy) then js_sub err dy else err) dx
         else (if js_gt (js_mul (Fin 2) err) (js_neg dy) then js_sub err dy else err)"
    let ?q = "if js_ge x (Fin 0) \<and> js_lt x w \<and> js_ge y (Fin 0) \<and> js_lt y h
             then pixels @ [(Math_round x, Math_round y)] else pixels"
    assume IH: "\<And>x1 y1 w h dx dy sx sy x y err pixels r.
          f x1 y1 w h dx dy sx sy x y err pixels = Some r \<Longrightarrow> ?P x1 y1 w h dx dy sx sy x y err pixels r"
      and body: "(let pixels' =
            (if js_ge x (Fin 0) \<and> js_lt x w \<and> js_ge y (Fin 0) \<and> js_lt y h
             then pixels @ [(Math_round x, Math_round y)] else pixels) in
       if js_eq x x1 \<and> js_eq y y1 then Some pixels'
       else
         let e2 = js_mul (Fin 2) err;
             err' = (if js_gt e2 (js_neg dy) then js_sub err dy else err);
             x' = (if js_gt e2 (js_neg dy) then js_add x sx else x);
             err'' = (if js_lt e2 dx then js_add err' dx else err');
             y' = (if js_lt e2 dx then js_add y sy else y)
         in f x1 y1 w h dx dy sx sy x' y' err'' pixels') = Some r"
    show "?P x1 y1 w h dx dy sx sy x y err pixels r"
    proof (intro allI)
      fix i acc
      show "\<exists>r. bresenhamLine_loop x1 y1 dx dy sx sy x y err i acc = Some r"
      proof (cases "js_eq x x1 \<and> js_eq y y1")
        case True
        then show ?thesis using bresenhamLine_loop_next[of x1 y1 dx dy sx sy x y err i acc] by simp
      next
        case False
        with body have "f x1 y1 w h dx dy sx sy ?x ?y ?e ?q = Some r"
          by (simp only: Let_def if_False)
        from IH[OF this] obtain r2 where
          "bresenhamLine_loop x1 y1 dx dy sx sy ?x ?y ?e (js_add i (Fin 1))
             (acc @ [\<lparr>px = x, py = y, info = BresenhamStep i x y err\<rparr>]) = Some r2"
          by blast
        then show ?thesis
          using bresenhamLine_loop_next[of x1 y1 dx dy sx sy x y err i acc] False by simp
      qed
    qed
  qed
  then show ?thesis by blast
qed

lemma bresenham_loops_agree:
  assumes whole: "Math_round x = x" "Math_round y = y"
    and unit: "sx = Fin 1 \<or> sx = Fin (- 1)" "sy = Fin 1 \<or> sy = Fin (- 1)"
  shows "bresenhamLinePixels_loop x1 y1 w h dx dy sx sy x y err [] =
     map_option (\<lambda>ps. filter (in_bounds w h) (map position ps))
       (bresenhamLine_loop x1 y1 dx dy sx sy x y err i [])"
proof (cases "bresenhamLine_loop x1 y1 dx dy sx sy x y err i []")
  case None
  have "bresenhamLinePixels_loop x1 y1 w h dx dy sx sy x y err [] = None"
  proof (rule ccontr)
    assume "bresenhamLinePixels_loop x1 y1 w h dx dy sx sy x y err [] \<noteq> None"
    then obtain r' where "bresenhamLinePixels_loop x1 y1 w h dx dy sx sy x y err [] = Some r'"
      by auto
    from bresenham_pixels_to_line[OF this, of i "[]"] None show False by simp
  qed
  with None show ?thesis by simp
next
  case (Some r)
  from bresenham_line_to_pixels[OF Some whole unit, of w h] Some show ?thesis by simp
qed

lemma bresenhamLinePixels_filter:
  "bresenhamLinePixels (js_int x0) (js_int y0) (js_int x1) (js_int y1) w h =
     map_option (\<lambda>ps. filter (in_bounds w h) (map position ps))
       (bresenhamLine (js_int x0) (js_int y0) (js_int x1) (js_int y1))"
  unfolding bresenhamLinePixels_def bresenhamLine_def Let_def
  by (rule bresenham_loops_agree) (simp_all add: Math_round_js_int)

text \<open>On integer end points what \<open>bresenhamLinePixels\<close> returns is within the bounds.\<close>

lemma bresenhamLinePixels_integers_in_bounds:
  assumes "bresenhamLinePixels (js_int x0) (js_int y0) (js_int x1) (js_int y1) w h = Some ps"
  shows "list_all (in_bounds w h) ps"
  using assms unfolding bresenhamLinePixels_filter by (auto simp: list_all_iff)

subsection \<open>What the simulator's Bresenham pushes\<close>

lemma bresenhamLinePixels_loop_rounded:
  assumes run: "bresenhamLinePixels_loop x1 y1 w h dx dy sx sy x y err pixels = Some r"
    and acc: "list_all rounded pixels"
  shows "list_all rounded r"
proof -
  let ?P = "\<lambda>(x1::jsnum) (y1::jsnum) (w::jsnum) (h::jsnum) (dx::jsnum) (dy::jsnum) (sx::jsnum)
      (sy::jsnum) (x::jsnum) (y::jsnum) (err::jsnum) pixels r.
      list_all rounded pixels \<longrightarrow> list_all rounded r"
  have "?P x1 y1 w h dx dy sx sy x y err pixels r"
  proof (rule bresenhamLinePixels_loop_induct[OF run, where P = ?P])
    fix f x1 y1 w h dx dy sx sy x y err and pixels r :: "jspoint list"
    let ?q = "if js_ge x (Fin 0) \<and> js_lt x w \<and> js_ge y (Fin 0) \<and> js_lt y h
             then pixels @ [(Math_round x, Math_round y)] else pixels"
    assume IH: "\<And>x1 y1 w h dx dy sx sy x y err pixels r.
          f x1 y1 w h dx dy sx sy x y err pixels = Some r \<Longrightarrow> ?P x1 y1 w h dx dy sx sy x y err pixels r"
      and body: "(let pixels' =
            (if js_ge x (Fin 0) \<and> js_lt x w \<and> js_ge y (Fin 0) \<and> js_lt y h
             then pixels @ [(Math_round x, Math_round y)] else pixels) in
       if js_eq x x1 \<and> js_eq y y1 then Some pixels'
       else
         let e2 = js_mul (Fin 2) err;
             err' = (if js_gt e2 (js_neg dy) then js_sub err dy else err);
             x' = (if js_gt e2 (js_neg dy) then js_add x sx else x);
             err'' = (if js_lt e2 dx then js_add err' dx else err');
             y' = (if js_lt e2 dx then js_add y sy else y)
         in f x1 y1 w h dx dy sx sy x' y' err'' pixels') = Some r"
    show "?P x1 y1 w h dx dy sx sy x y err pixels r"
    proof
      assume "list_all rounded pixels"
      then have q: "list_all rounded ?q" by (simp add: rounded_def Math_round_idem)
      show "list_all rounded r"
      proof (cases "js_eq x x1 \<and> js_eq y y1")
        case True
        with body have "r = ?q" by (simp only: Let_def if_True) simp
        with q show ?thesis by simp
      next
        case False
        with body obtain x' y' err'' where "f x1 y1 w h dx dy sx sy x' y' err'' ?q = Some r"
          by (simp only: Let_def if_False)
        from IH[OF this] q show ?thesis by blast
      qed
    qed
  qed
  with acc show ?thesis by blast
qed

lemma bresenhamLinePixels_rounded:
  "bresenhamLinePixels x0 y0 x1 y1 w h = Some ps \<Longrightarrow> list_all rounded ps"
  unfolding bresenhamLinePixels_def Let_def
  by (erule bresenhamLinePixels_loop_rounded) simp

subsection \<open>A segment whose end points differ by half a pixel\<close>

lemma bresenhamLinePixels_loop_stuck:
  assumes "Math_round x = x"
  shows "bresenhamLinePixels_loop (Fin (7 / 2)) (Fin 7) w h (Fin (1 / 2)) (Fin 0) (Fin 1) (Fin (- 1))
     x (Fin 7) (Fin (1 / 2)) pixels = None"
proof (rule ccontr)
  assume "bresenhamLinePixels_loop (Fin (7 / 2)) (Fin 7) w h (Fin (1 / 2)) (Fin 0) (Fin 1)
     (Fin (- 1)) x (Fin 7) (Fin (1 / 2)) pixels \<noteq> None"
  then obtain r where run: "bresenhamLinePixels_loop (Fin (7 / 2)) (Fin 7) w h (Fin (1 / 2)) (Fin 0)
     (Fin 1) (Fin (- 1)) x (Fin 7) (Fin (1 / 2)) pixels = Some r"
    by auto
  let ?P = "\<lambda>x1 y1 (w::jsnum) (h::jsnum) dx dy sx sy x y err (pixels::jspoint list)
      (r::jspoint list).
      \<not> (x1 = Fin (7 / 2) \<and> y1 = Fin 7 \<and> dx = Fin (1 / 2) \<and> dy = Fin 0 \<and> sx = Fin 1 \<and>
         sy = Fin (- 1) \<and> Math_round x = x \<and> y = Fin 7 \<and> err = Fin (1 / 2))"
  have "?P (Fin (7 / 2)) (Fin 7) w h (Fin (1 / 2)) (Fin 0) (Fin 1) (Fin (- 1))
     x (Fin 7) (Fin (1 / 2)) pixels r"
  proof (rule bresenhamLinePixels_loop_induct[OF run, where P = ?P])
    fix f x1 y1 w h dx dy sx sy x y err and pixels r :: "jspoint list"
    let ?q = "if js_ge x (Fin 0) \<and> js_lt x w \<and> js_ge y (Fin 0) \<and> js_lt y h
             then pixels @ [(Math_round x, Math_round y)] else pixels"
    assume IH: "\<And>x1 y1 w h dx dy sx sy x y err pixels r.
          f x1 y1 w h dx dy sx sy x y err pixels = Some r \<Longrightarrow> ?P x1 y1 w h dx dy sx sy x y err pixels r"
      and body: "(let pixels' =
            (if js_ge x (Fin 0) \<and> js_lt x w \<and> js_ge y (Fin 0) \<and> js_lt y h
             then pixels @ [(Math_round x, Math_round y)] else pixels) in
       if js_eq x x1 \<and> js_eq y y1 then Some pixels'
       else
         let e2 = js_mul (Fin 2) err;
             err' = (if js_gt e2 (js_neg dy) then js_sub err dy else err);
             x' = (if js_gt e2 (js_neg dy) then js_add x sx else x);
             err'' = (if js_lt e2 dx then js_add err' dx else err');
             y' = (if js_lt e2 dx then js_add y sy else y)
         in f x1 y1 w h dx dy sx sy x' y' err'' pixels') = Some r"
    show "?P x1 y1 w h dx dy sx sy x y err pixels r"
    proof
      assume c: "x1 = Fin (7 / 2) \<and> y1 = Fin 7 \<and> dx = Fin (1 / 2) \<and> dy = Fin 0 \<and> sx = Fin 1 \<and>
         sy = Fin (- 1) \<and> Math_round x = x \<and> y = Fin 7 \<and> err = Fin (1 / 2)"
      then have wx: "Math_round x = x" by blast
      have "Math_round (Fin (7 / 2)) \<noteq> Fin (7 / 2)" by simp
      with wx have ne: "x \<noteq> Fin (7 / 2)" by auto
      from body c ne have "f x1 y1 w h dx dy sx sy (js_add x (Fin 1)) y err ?q = Some r"
        by (simp add: Let_def js_eq_def js_gt_def js_sub_def round64_numerals)
      from IH[OF this] c Math_round_add_unit[OF wx, of "Fin 1"] show False by simp
    qed
  qed
  with assms show False by simp
qed

lemma bresenhamLinePixels_half_pixel:
  "bresenhamLinePixels (Fin 3) (Fin 7) (Fin (7 / 2)) (Fin 7) w h = None"
proof -
  have "bresenhamLinePixels (Fin 3) (Fin 7) (Fin (7 / 2)) (Fin 7) w h =
    bresenhamLinePixels_loop (Fin (7 / 2)) (Fin 7) w h (Fin (1 / 2)) (Fin 0) (Fin 1) (Fin (- 1))
     (Fin 3) (Fin 7) (Fin (1 / 2)) []"
    by (simp add: bresenhamLinePixels_def Let_def js_sub_def round64_numerals)
  moreover have "Math_round (Fin 3) = Fin 3" using Math_round_js_int[of 3] by (simp add: js_int_def)
  ultimately show ?thesis by (simp only: bresenhamLinePixels_loop_stuck)
qed

subsection \<open>DDA: number of steps\<close>

lemma ddaLine_loop_count:
  assumes "0 \<le> i" "i \<le> steps + 1" "steps \<le> 2 ^ 30"
  shows "\<exists>ps. ddaLine_loop (js_int steps) xi yi x y (js_int i) pixels = Some (pixels @ ps) \<and>
           length ps = nat (steps + 1 - i)"
  using assms
proof (induction "nat (steps + 1 - i)" arbitrary: i x y pixels rule: less_induct)
  case less
  show ?case
  proof (cases "i \<le> steps")
    case True
    let ?p = "\<lparr>px = Math_round x, py = Math_round y, info = DDAStep (js_int i) x y\<rparr>"
    have ii: "js_add (js_int i) (Fin 1) = js_int (i + 1)"
      using less.prems True by (intro js_add_one) auto
    have m: "nat (steps + 1 - (i + 1)) < nat (steps + 1 - i)" using True by simp
    have b: "0 \<le> i + 1" "i + 1 \<le> steps + 1" using less.prems True by auto
    from less.hyps[OF m b less.prems(3), of "js_add x xi" "js_add y yi" "pixels @ [?p]"]
    obtain ps where ps: "ddaLine_loop (js_int steps) xi yi (js_add x xi) (js_add y yi)
        (js_int (i + 1)) (pixels @ [?p]) = Some ((pixels @ [?p]) @ ps)"
      and len: "length ps = nat (steps + 1 - (i + 1))"
      by blast
    have "ddaLine_loop (js_int steps) xi yi x y (js_int i) pixels = Some (pixels @ ?p # ps)"
      using ps True by (subst ddaLine_loop.simps) (simp add: js_le_int ii)
    moreover have "length (?p # ps) = nat (steps + 1 - i)"
      using len True by simp
    ultimately show ?thesis by blast
  next
    case False
    then have "ddaLine_loop (js_int steps) xi yi x y (js_int i) pixels = Some pixels"
      by (subst ddaLine_loop.simps) (simp add: js_le_int)
    moreover from False less.prems have "nat (steps + 1 - i) = 0" by simp
    ultimately show ?thesis by simp
  qed
qed

lemma ddaLine_setup:
  assumes "coordinate x0" "coordinate y0" "coordinate x1" "coordinate y1"
  shows "ddaLine (js_int x0) (js_int y0) (js_int x1) (js_int y1) =
     ddaLine_loop (js_int (max \<bar>x1 - x0\<bar> \<bar>y1 - y0\<bar>))
       (js_div (js_int (x1 - x0)) (js_int (max \<bar>x1 - x0\<bar> \<bar>y1 - y0\<bar>)))
       (js_div (js_int (y1 - y0)) (js_int (max \<bar>x1 - x0\<bar> \<bar>y1 - y0\<bar>)))
       (js_int x0) (js_int y0) (js_int 0) []"
proof -
  from assms have r: "\<bar>x0\<bar> \<le> 2 ^ 28" "\<bar>y0\<bar> \<le> 2 ^ 28" "\<bar>x1\<bar> \<le> 2 ^ 28" "\<bar>y1\<bar> \<le> 2 ^ 28"
    unfolding coordinate_def by auto
  have dx: "js_sub (js_int x1) (js_int x0) = js_int (x1 - x0)"
    using r by (intro js_sub_int) auto
  have dy: "js_sub (js_int y1) (js_int y0) = js_int (y1 - y0)"
    using r by (intro js_sub_int) auto
  have st: "(if \<bar>y1 - y0\<bar> < \<bar>x1 - x0\<bar> then js_int \<bar>x1 - x0\<bar> else js_int \<bar>y1 - y0\<bar>)
      = js_int (max \<bar>x1 - x0\<bar> \<bar>y1 - y0\<bar>)"
    by (simp add: max_def)
  have z: "Fin 0 = js_int 0" by (simp add: js_int_def)
  show ?thesis
    unfolding ddaLine_def Let_def dx dy Math_abs_int js_gt_int st z ..
qed

lemma ddaLine_count:
  assumes "coordinate x0" "coordinate y0" "coordinate x1" "coordinate y1"
  shows "\<exists>ps. ddaLine (js_int x0) (js_int y0) (js_int x1) (js_int y1) = Some ps \<and>
     length ps = nat (max \<bar>x1 - x0\<bar> \<bar>y1 - y0\<bar>) + 1"
proof -
  from assms have r: "\<bar>x0\<bar> \<le> 2 ^ 28" "\<bar>y0\<bar> \<le> 2 ^ 28" "\<bar>x1\<bar> \<le> 2 ^ 28" "\<bar>y1\<bar> \<le> 2 ^ 28"
    unfolding coordinate_def by auto
  let ?s = "max \<bar>x1 - x0\<bar> \<bar>y1 - y0\<bar>"
  have s: "(0::int) \<le> 0" "0 \<le> ?s + 1" "?s \<le> 2 ^ 30" using r by auto
  from ddaLine_loop_count[OF s, where pixels = "[]"]
  show ?thesis unfolding ddaLine_setup[OF assms] by (simp add: nat_add_distrib)
qed

lemma ddaLine_point:
  assumes "coordinate x0" "coordinate y0"
  shows "ddaLine (js_int x0) (js_int y0) (js_int x0) (js_int y0) =
     Some [\<lparr>px = js_int x0, py = js_int y0, info = DDAStep (Fin 0) (js_int x0) (js_int y0)\<rparr>]"
proof -
  have one: "js_add (js_int 0) (Fin 1) = js_int 1" using js_add_one[of 0] by simp
  have "ddaLine_loop (js_int 0) xi yi x y (js_int 0) [] =
      Some [\<lparr>px = Math_round x, py = Math_round y, info = DDAStep (js_int 0) x y\<rparr>]" for xi yi x y
    by (subst ddaLine_loop.simps, subst ddaLine_loop.simps) (simp add: js_le_int one)
  then show ?thesis
    unfolding ddaLine_setup[OF assms assms] by (simp add: Math_round_js_int) (simp add: js_int_def)
qed

text \<open>Beyond \<open>2\<^sup>5\<^sup>3\<close> the loop counter stops growing.\<close>

lemma ddaLine_loop_stuck:
  assumes "0 \<le> n" "n \<le> 2 ^ 53"
  shows "ddaLine_loop (Fin (2 ^ 53 + 2)) xi yi x y (js_int n) pixels = None"
proof (rule ccontr)
  assume "ddaLine_loop (Fin (2 ^ 53 + 2)) xi yi x y (js_int n) pixels \<noteq> None"
  then obtain r where run: "ddaLine_loop (Fin (2 ^ 53 + 2)) xi yi x y (js_int n) pixels = Some r"
    by auto
  let ?P = "\<lambda>steps (xi::jsnum) (yi::jsnum) (x::jsnum) (y::jsnum) i (pixels::pixel list)
      (r::pixel list).
      \<not> (steps = Fin (2 ^ 53 + 2) \<and> (\<exists>n. i = js_int n \<and> 0 \<le> n \<and> n \<le> 2 ^ 53))"
  have "?P (Fin (2 ^ 53 + 2)) xi yi x y (js_int n) pixels r"
  proof (rule ddaLine_loop_induct[OF run, where P = ?P])
    fix f steps xIncrement yIncrement x y i and pixels r :: "pixel list"
    assume IH: "\<And>steps xIncrement yIncrement x y i pixels r.
          f steps xIncrement yIncrement x y i pixels = Some r \<Longrightarrow>
          ?P steps xIncrement yIncrement x y i pixels r"
      and body: "(if js_le i steps then
         f steps xIncrement yIncrement (js_add x xIncrement) (js_add y yIncrement)
           (js_add i (Fin 1))
           (pixels @ [\<lparr>px = Math_round x, py = Math_round y, info = DDAStep i x y\<rparr>])
       else Some pixels) = Some r"
    show "?P steps xIncrement yIncrement x y i pixels r"
    proof
      assume c: "steps = Fin (2 ^ 53 + 2) \<and> (\<exists>n. i = js_int n \<and> 0 \<le> n \<and> n \<le> 2 ^ 53)"
      then obtain n where n: "i = js_int n" "0 \<le> n" "n \<le> 2 ^ 53" by blast
      have le: "js_le i steps"
      proof -
        have "(of_int n :: rat) \<le> of_int (2 ^ 53 + 2)" using n(3) by (simp only: of_int_le_iff)
        then show ?thesis using c unfolding n(1) js_int_def by simp
      qed
      have nxt: "\<exists>m. js_add i (Fin 1) = js_int m \<and> 0 \<le> m \<and> m \<le> 2 ^ 53"
      proof (cases "n = 2 ^ 53")
        case True
        have "js_add i (Fin 1) = js_int (2 ^ 53)"
          unfolding n(1) True js_int_def by (simp add: round64_numerals)
        then show ?thesis by (intro exI[of _ "2 ^ 53"]) simp
      next
        case False
        with n have "js_add i (Fin 1) = js_int (n + 1)"
          unfolding n(1) by (intro js_add_one) auto
        with False n show ?thesis by (intro exI[of _ "n + 1"]) simp
      qed
      from body le have "f steps xIncrement yIncrement (js_add x xIncrement) (js_add y yIncrement)
           (js_add i (Fin 1))
           (pixels @ [\<lparr>px = Math_round x, py = Math_round y, info = DDAStep i x y\<rparr>]) = Some r"
        by simp
      from IH[OF this] c nxt show False by blast
    qed
  qed
  with assms show False by blast
qed

lemma ddaLine_overflow_example:
  "ddaLine (Fin 0) (Fin 0) (Fin (2 ^ 53 + 2)) (Fin 0) = None"
proof -
  have "ddaLine (Fin 0) (Fin 0) (Fin (2 ^ 53 + 2)) (Fin 0) =
    ddaLine_loop (Fin (2 ^ 53 + 2)) (Fin 1) (Fin 0) (Fin 0) (Fin 0) (js_int 0) []"
    by (simp add: ddaLine_def Let_def js_sub_def js_gt_def round64_numerals js_int_def)
  then show ?thesis using ddaLine_loop_stuck[of 0] by simp
qed

subsection \<open>Midpoint circle: the invariant on integers\<close>

lemma circle_inv_init: "1 \<le> r \<Longrightarrow> circle_inv r 0 r (1 - r)"
  unfolding circle_inv_def by (simp add: power2_eq_square algebra_simps)

lemma circle_inv_step:
  assumes "circle_inv r x y p" "x < y"
  shows "circle_inv r (x + 1) (if p < 0 then y else y - 1)
           (if p < 0 then p + 2 * (x + 1) + 1
            else p + 2 * (x + 1) + 1 - 2 * (if p < 0 then y else y - 1))"
  using assms unfolding circle_inv_def
  by (auto simp: power2_eq_square algebra_simps)

lemma circle_inv_near:
  assumes "circle_inv r x y p"
  shows "r\<^sup>2 - r \<le> x\<^sup>2 + y\<^sup>2" "x\<^sup>2 + y\<^sup>2 \<le> r\<^sup>2 + r"
  using assms unfolding circle_inv_def
  by (auto simp: power2_eq_square algebra_simps)

lemma octants_near:
  assumes "circle_inv r x y p"
  shows "list_all (near_circle cx cy r) (octants cx cy x y)"
  using circle_inv_near[OF assms]
  unfolding octants_def near_circle_def
  by (simp add: power2_eq_square algebra_simps)

lemma symmetric8_Un:
  "symmetric8 cx cy A \<Longrightarrow> symmetric8 cx cy B \<Longrightarrow> symmetric8 cx cy (A \<union> B)"
  unfolding symmetric8_def by blast

lemma octants_symmetric8: "symmetric8 cx cy (set (octants cx cy x y))"
  unfolding symmetric8_def octants_def reflections8_def Let_def by simp

lemma near_circle_distance:
  assumes "1 \<le> r" "near_circle cx cy r q"
  shows "real_of_int r - 1 \<le> distance cx cy q" "distance cx cy q \<le> real_of_int r + 1"
proof -
  let ?d = "(fst q - cx)\<^sup>2 + (snd q - cy)\<^sup>2"
  from assms have lo: "(r - 1)\<^sup>2 \<le> ?d" and hi: "?d \<le> (r + 1)\<^sup>2"
    unfolding near_circle_def by (auto simp: power2_eq_square algebra_simps)
  have "(real_of_int r - 1)\<^sup>2 \<le> real_of_int ?d"
    using lo by (metis of_int_1 of_int_diff of_int_le_iff of_int_power)
  then show "real_of_int r - 1 \<le> distance cx cy q"
    unfolding distance_def by (rule real_le_rsqrt)
  have "real_of_int ?d \<le> (real_of_int r + 1)\<^sup>2"
    using hi by (metis of_int_1 of_int_add of_int_le_iff of_int_power)
  then show "distance cx cy q \<le> real_of_int r + 1"
    unfolding distance_def using assms(1) by (intro real_le_lsqrt) auto
qed

subsection \<open>Midpoint circle: the loop on integers in range\<close>

lemma drawCirclePoints_int:
  assumes "\<bar>cx\<bar> \<le> 2 ^ 28" "\<bar>cy\<bar> \<le> 2 ^ 28" "\<bar>x\<bar> \<le> 2 ^ 29" "\<bar>y\<bar> \<le> 2 ^ 29"
  shows "map position (drawCirclePoints (js_int cx) (js_int cy) (js_int x) (js_int y) label)
     = map js_point (octants cx cy x y)"
proof -
  have a: "js_add (js_int c) (js_int v) = js_int (c + v)"
    if "\<bar>c\<bar> \<le> 2 ^ 28" "\<bar>v\<bar> \<le> 2 ^ 29" for c v
    using that by (intro js_add_int) auto
  have s: "js_sub (js_int c) (js_int v) = js_int (c - v)"
    if "\<bar>c\<bar> \<le> 2 ^ 28" "\<bar>v\<bar> \<le> 2 ^ 29" for c v
    using that by (intro js_sub_int) auto
  note f = a[OF assms(1,3)] a[OF assms(1,4)] a[OF assms(2,3)] a[OF assms(2,4)]
    s[OF assms(1,3)] s[OF assms(1,4)] s[OF assms(2,3)] s[OF assms(2,4)]
  show ?thesis
    unfolding drawCirclePoints_def octants_def
    by (simp add: position_def js_point_def f)
qed

lemma midpointCircle_loop_unfold:
  assumes inv: "circle_inv r x y p" and r: "r \<le> 2 ^ 28" and i: "0 \<le> i" "i \<le> 2 ^ 30"
    and more: "x < y"
  shows "midpointCircle_loop cx cy (js_int x) (js_int y) (js_int p) (js_int i) pixels =
     midpointCircle_loop cx cy (js_int (x + 1)) (js_int (if p < 0 then y else y - 1))
       (js_int (if p < 0 then p + 2 * (x + 1) + 1
                else p + 2 * (x + 1) + 1 - 2 * (if p < 0 then y else y - 1)))
       (js_int (i + 1))
       (pixels @ drawCirclePoints cx cy (js_int (x + 1)) (js_int (if p < 0 then y else y - 1))
          (CircleStep (js_int (i + 1)) (js_int (x + 1)) (js_int (if p < 0 then y else y - 1))
             (js_int (if p < 0 then p + 2 * (x + 1) + 1
                      else p + 2 * (x + 1) + 1 - 2 * (if p < 0 then y else y - 1)))))"
proof -
  from inv have b: "0 \<le> x" "y \<le> r" "2 * x - 2 * y + 1 \<le> p" "p \<le> 2 * x + 1"
    unfolding circle_inv_def by auto
  show ?thesis
    using b more r i
    by (subst midpointCircle_loop.simps)
      (simp add: Let_def js_lt_int js_lt_zero js_add_int js_add_one js_sub_int js_sub_one
         js_mul2_int)
qed

lemma midpointCircle_loop_result:
  assumes "circle_inv r x y p" "\<bar>cx\<bar> \<le> 2 ^ 28" "\<bar>cy\<bar> \<le> 2 ^ 28" "r \<le> 2 ^ 28"
    and "0 \<le> i" "i + (y - x) \<le> 2 ^ 30"
  shows "\<exists>ps pts. midpointCircle_loop (js_int cx) (js_int cy) (js_int x) (js_int y) (js_int p)
             (js_int i) acc = Some (acc @ ps) \<and>
           map position ps = map js_point pts \<and>
           list_all (near_circle cx cy r) pts \<and> symmetric8 cx cy (set pts) \<and>
           length pts \<le> 8 * nat (y - x)"
  using assms
proof (induction "nat (y - x)" arbitrary: x y p i acc rule: less_induct)
  case less
  note inv = less.prems(1) and c = less.prems(2,3) and r = less.prems(4) and i = less.prems(5,6)
  show ?case
  proof (cases "x < y")
    case False
    then have "midpointCircle_loop (js_int cx) (js_int cy) (js_int x) (js_int y) (js_int p)
             (js_int i) acc = Some acc"
      by (subst midpointCircle_loop.simps) (simp add: js_lt_int)
    then show ?thesis
      by (intro exI[of _ "[]"]) (simp add: symmetric8_def)
  next
    case True
    let ?y = "if p < 0 then y else y - 1"
    let ?p = "if p < 0 then p + 2 * (x + 1) + 1 else p + 2 * (x + 1) + 1 - 2 * ?y"
    let ?d = "drawCirclePoints (js_int cx) (js_int cy) (js_int (x + 1)) (js_int ?y)
          (CircleStep (js_int (i + 1)) (js_int (x + 1)) (js_int ?y) (js_int ?p))"
    have inv': "circle_inv r (x + 1) ?y ?p" using circle_inv_step[OF inv True] .
    from inv have b: "0 \<le> x" "y \<le> r" "p \<le> 2 * x \<or> y \<le> x"
      unfolding circle_inv_def by auto
    have m: "nat (?y - (x + 1)) < nat (y - x)" using True by auto
    have i': "0 \<le> i + 1" "i + 1 + (?y - (x + 1)) \<le> 2 ^ 30" using i True by auto
    have i30: "i \<le> 2 ^ 30" using i True by auto
    from less.hyps[OF m inv' c r i', of "acc @ ?d"]
    obtain ps pts where ps: "midpointCircle_loop (js_int cx) (js_int cy) (js_int (x + 1)) (js_int ?y)
          (js_int ?p) (js_int (i + 1)) (acc @ ?d) = Some ((acc @ ?d) @ ps)"
      and mp: "map position ps = map js_point pts"
      and near: "list_all (near_circle cx cy r) pts" and sym: "symmetric8 cx cy (set pts)"
      and len: "length pts \<le> 8 * nat (?y - (x + 1))"
      by blast
    have run: "midpointCircle_loop (js_int cx) (js_int cy) (js_int x) (js_int y) (js_int p)
             (js_int i) acc = Some (acc @ ?d @ ps)"
      using midpointCircle_loop_unfold[OF inv r less.prems(5) i30 True, of "js_int cx" "js_int cy" acc]
        ps by simp
    have sz: "\<bar>x + 1\<bar> \<le> 2 ^ 29" "\<bar>?y\<bar> \<le> 2 ^ 29" using b True r by auto
    have md: "map position ?d = map js_point (octants cx cy (x + 1) ?y)"
      using drawCirclePoints_int[OF c sz] .
    have "map position (?d @ ps) = map js_point (octants cx cy (x + 1) ?y @ pts)"
      using md mp by simp
    moreover have "list_all (near_circle cx cy r) (octants cx cy (x + 1) ?y @ pts)"
      using octants_near[OF inv'] near by simp
    moreover have "symmetric8 cx cy (set (octants cx cy (x + 1) ?y @ pts))"
      using symmetric8_Un[OF octants_symmetric8 sym] by simp
    moreover have "length (octants cx cy (x + 1) ?y @ pts) \<le> 8 * nat (y - x)"
    proof -
      have "nat (?y - (x + 1)) + 1 \<le> nat (y - x)" using True by auto
      then have "8 * nat (?y - (x + 1)) + 8 \<le> 8 * nat (y - x)" by simp
      with len show ?thesis by (simp add: octants_def)
    qed
    ultimately show ?thesis using run by blast
  qed
qed

lemma midpointCircle_setup:
  assumes "coordinate r"
  shows "midpointCircle cx cy (js_int r) =
     midpointCircle_loop cx cy (js_int 0) (js_int r) (js_int (1 - r)) (js_int 0)
       (drawCirclePoints cx cy (js_int 0) (js_int r)
          (CircleInitial (js_int 0) (js_int r) (js_int (1 - r))))"
proof -
  from assms have r: "\<bar>r\<bar> \<le> 2 ^ 28" unfolding coordinate_def by simp
  have p: "js_sub (Fin 1) (js_int r) = js_int (1 - r)"
    using js_sub_int[of 1 r] r by (simp add: js_int_def)
  have z: "Fin 0 = js_int 0" by (simp add: js_int_def)
  show ?thesis unfolding midpointCircle_def Let_def p z ..
qed

lemma midpointCircle_points:
  assumes "coordinate cx" "coordinate cy" "coordinate r" "0 < r"
  shows "\<exists>ps pts. midpointCircle (js_int cx) (js_int cy) (js_int r) = Some ps \<and>
     map position ps = map js_point pts \<and>
     list_all (near_circle cx cy r) pts \<and> symmetric8 cx cy (set pts) \<and>
     length pts \<le> 8 * nat r + 8"
proof -
  from assms have c: "\<bar>cx\<bar> \<le> 2 ^ 28" "\<bar>cy\<bar> \<le> 2 ^ 28" and r: "r \<le> 2 ^ 28" "1 \<le> r"
    unfolding coordinate_def by auto
  let ?d = "drawCirclePoints (js_int cx) (js_int cy) (js_int 0) (js_int r)
          (CircleInitial (js_int 0) (js_int r) (js_int (1 - r)))"
  note inv = circle_inv_init[OF r(2)]
  have s: "(0::int) \<le> 0" "0 + (r - 0) \<le> 2 ^ 30" using r by auto
  from midpointCircle_loop_result[OF inv c r(1) s, of ?d]
  obtain ps pts where ps: "midpointCircle_loop (js_int cx) (js_int cy) (js_int 0) (js_int r)
      (js_int (1 - r)) (js_int 0) ?d = Some (?d @ ps)"
    and mp: "map position ps = map js_point pts"
    and near: "list_all (near_circle cx cy r) pts" and sym: "symmetric8 cx cy (set pts)"
    and len: "length pts \<le> 8 * nat (r - 0)"
    by blast
  have sz: "\<bar>0::int\<bar> \<le> 2 ^ 29" "\<bar>r\<bar> \<le> 2 ^ 29" using r by auto
  have md: "map position ?d = map js_point (octants cx cy 0 r)"
    using drawCirclePoints_int[OF c sz] .
  have "length (octants cx cy 0 r @ pts) \<le> 8 * nat r + 8"
    using len by (simp add: octants_def)
  moreover have "midpointCircle (js_int cx) (js_int cy) (js_int r) = Some (?d @ ps)"
    unfolding midpointCircle_setup[OF assms(3)] using ps .
  moreover have "map position (?d @ ps) = map js_point (octants cx cy 0 r @ pts)"
    using md mp by simp
  moreover have "list_all (near_circle cx cy r) (octants cx cy 0 r @ pts)"
    using octants_near[OF inv] near by simp
  moreover have "symmetric8 cx cy (set (octants cx cy 0 r @ pts))"
    using symmetric8_Un[OF octants_symmetric8 sym] by simp
  ultimately show ?thesis by blast
qed

text \<open>The function has no check of its own: with a radius that is not positive the loop is
  not entered and the eight images of \<open>(0, r)\<close> are returned.\<close>

lemma midpointCircle_unchecked:
  assumes "coordinate cx" "coordinate cy" "coordinate r" "r \<le> 0"
  shows "\<exists>ps. midpointCircle (js_int cx) (js_int cy) (js_int r) = Some ps \<and>
     map position ps = map js_point (octants cx cy 0 r)"
proof -
  from assms have c: "\<bar>cx\<bar> \<le> 2 ^ 28" "\<bar>cy\<bar> \<le> 2 ^ 28" and r: "\<bar>r\<bar> \<le> 2 ^ 28"
    unfolding coordinate_def by auto
  let ?d = "drawCirclePoints (js_int cx) (js_int cy) (js_int 0) (js_int r)
          (CircleInitial (js_int 0) (js_int r) (js_int (1 - r)))"
  have sz: "\<bar>0::int\<bar> \<le> 2 ^ 29" "\<bar>r\<bar> \<le> 2 ^ 29" using r by auto
  have md: "map position ?d = map js_point (octants cx cy 0 r)"
    using drawCirclePoints_int[OF c sz] .
  have "midpointCircle (js_int cx) (js_int cy) (js_int r) = Some ?d"
    unfolding midpointCircle_setup[OF assms(3)]
    using assms(4) by (subst midpointCircle_loop.simps) (simp add: js_lt_int)
  with md show ?thesis by blast
qed

subsection \<open>Raster simulator: the frame buffer\<close>

lemma as_index_js_int: "0 \<le> n \<Longrightarrow> as_index (js_int n) = Some (nat n)"
  unfolding as_index_def js_int_def by simp

lemma index_of_checked:
  assumes "Math_round v = v" "js_ge v (Fin 0)" "js_lt v (js_int (int k))"
  shows "\<exists>n. as_index v = Some n \<and> n < k"
proof -
  from Math_round_fixed_cases[OF assms(1)] assms(2,3) obtain m where m: "v = js_int m"
    by (auto simp: js_ge_def js_int_def)
  from assms(2,3) have "0 \<le> m" "m < int k"
    unfolding m using js_ge_int[of m 0] js_lt_int[of m "int k"] by (simp_all add: js_int_def)
  then show ?thesis unfolding m by (simp add: as_index_js_int)
qed

lemma buffer_write_dims:
  assumes "length buf = h" "list_all (\<lambda>row. length row = w) buf"
    and "as_index y = Some n" "n < h" "as_index x = Some m" "m < w"
  shows "\<exists>buf'. buffer_write buf y x c = Inr buf' \<and> length buf' = h \<and>
           list_all (\<lambda>row. length row = w) buf'"
proof -
  from assms have row: "n < length buf" by simp
  with assms(2) have len: "length (buf ! n) = w" by (simp add: list_all_length)
  have "length (buf[n := (buf ! n)[m := c]] ! k) = w" if "k < length buf" for k
  proof (cases "k = n")
    case True
    with that len show ?thesis by simp
  next
    case False
    with that assms(2) show ?thesis by (simp add: list_all_length)
  qed
  then have "list_all (\<lambda>row. length row = w) (buf[n := (buf ! n)[m := c]])"
    by (simp add: list_all_length)
  with row len assms show ?thesis unfolding buffer_write_def by simp
qed

lemma plot_pixels_dims:
  assumes "length buf = h" "list_all (\<lambda>row. length row = w) buf" "list_all rounded ps"
  shows "\<exists>buf'. plot_pixels c w h ps buf = Inr buf' \<and> length buf' = h \<and>
           list_all (\<lambda>row. length row = w) buf'"
  using assms
proof (induction ps arbitrary: buf)
  case Nil
  then show ?case by simp
next
  case (Cons p ps)
  from Cons.prems(3) have rest: "list_all rounded ps" and "rounded p" by simp_all
  then have rp: "Math_round (fst p) = fst p" "Math_round (snd p) = snd p"
    by (simp_all add: rounded_def)
  show ?case
  proof (cases "js_ge (snd p) (Fin 0) \<and> js_lt (snd p) (js_int (int h)) \<and>
         js_ge (fst p) (Fin 0) \<and> js_lt (fst p) (js_int (int w))")
    case True
    from index_of_checked[OF rp(2), of h] True obtain n where n: "as_index (snd p) = Some n" "n < h"
      by blast
    from index_of_checked[OF rp(1), of w] True obtain m where m: "as_index (fst p) = Some m" "m < w"
      by blast
    from buffer_write_dims[OF Cons.prems(1,2) n m, of c] obtain buf' where
      w: "buffer_write buf (snd p) (fst p) c = Inr buf'" and
      d: "length buf' = h" "list_all (\<lambda>row. length row = w) buf'"
      by blast
    from Cons.IH[OF d rest] True w show ?thesis by simp
  next
    case False
    then have "plot_pixels c w h (p # ps) buf = plot_pixels c w h ps buf"
      by (simp only: plot_pixels.simps if_not_P if_False)
    with Cons.IH[OF Cons.prems(1,2) rest] show ?thesis by simp
  qed
qed

lemma plot_lines_dims:
  assumes "length buf = h" "list_all (\<lambda>row. length row = w) buf"
  shows "plot_lines c w h ls buf = Inl NoReturn \<or>
         (\<exists>buf'. plot_lines c w h ls buf = Inr buf' \<and> length buf' = h \<and>
           list_all (\<lambda>row. length row = w) buf')"
  using assms
proof (induction ls arbitrary: buf)
  case Nil
  then show ?case by simp
next
  case (Cons l ls)
  show ?case
  proof (cases "bresenhamLinePixels (line_x1 l) (line_y1 l) (line_x2 l) (line_y2 l)
      (js_int (int w)) (js_int (int h))")
    case None
    then show ?thesis by simp
  next
    case (Some ps)
    from plot_pixels_dims[OF Cons.prems bresenhamLinePixels_rounded[OF Some], of c] obtain buf' where
      p: "plot_pixels c w h ps buf = Inr buf'" and
      d: "length buf' = h" "list_all (\<lambda>row. length row = w) buf'"
      by blast
    from Cons.IH[OF d] Some p show ?thesis by simp
  qed
qed

lemma initializeRasterBuffer_ready:
  "initializeRasterBuffer darkMode drawnLines st = Inl NoReturn \<or>
   (\<exists>st0. initializeRasterBuffer darkMode drawnLines st = Inr st0 \<and>
     raster_ready (clientWidth st) (clientHeight st) (buffer st0) st0 \<and>
     currentScanline st0 = 0 \<and> currentPixelInScanline st0 = 0 \<and>
     raster_surface st0 = raster_surface st @ [ClearRect])"
proof -
  let ?w = "clientWidth st" and ?h = "clientHeight st"
  let ?st' = "clearCanvas (resizeCanvas st)"
  let ?bg = "if darkMode then ''#1f2937'' else ''#f0f2f5''"
  let ?fg = "if darkMode then ''#cbd5e1'' else ''black''"
  have dims: "canvas_width ?st' = ?w" "canvas_height ?st' = ?h"
    and surf: "raster_surface ?st' = raster_surface st @ [ClearRect]"
    unfolding clearCanvas_def resizeCanvas_def by auto
  have b0: "length (replicate ?h (replicate ?w ?bg)) = ?h"
    "list_all (\<lambda>row. length row = ?w) (replicate ?h (replicate ?w ?bg))"
    by (simp_all add: list_all_iff)
  from plot_lines_dims[OF b0, of ?fg drawnLines]
  show ?thesis
  proof
    assume "plot_lines ?fg ?w ?h drawnLines (replicate ?h (replicate ?w ?bg)) = Inl NoReturn"
    then have "initializeRasterBuffer darkMode drawnLines st = Inl NoReturn"
      unfolding initializeRasterBuffer_def Let_def dims by simp
    then show ?thesis by blast
  next
    assume "\<exists>buf'. plot_lines ?fg ?w ?h drawnLines (replicate ?h (replicate ?w ?bg)) = Inr buf' \<and>
      length buf' = ?h \<and> list_all (\<lambda>row. length row = ?w) buf'"
    then obtain buf' where
      p: "plot_lines ?fg ?w ?h drawnLines (replicate ?h (replicate ?w ?bg)) = Inr buf'" and
      d: "length buf' = ?h" "list_all (\<lambda>row. length row = ?w) buf'"
      by blast
    have "initializeRasterBuffer darkMode drawnLines st =
        Inr (?st'\<lparr>buffer := buf', currentScanline := 0, currentPixelInScanline := 0\<rparr>)"
      unfolding initializeRasterBuffer_def Let_def dims using p by simp
    with dims surf d show ?thesis unfolding raster_ready_def by simp
  qed
qed

lemma startRaster_ready:
  "startRaster darkMode drawnLines st = Inl NoReturn \<or>
   (\<exists>st0. startRaster darkMode drawnLines st = Inr st0 \<and>
     raster_ready (clientWidth st) (clientHeight st) (buffer st0) st0 \<and>
     currentScanline st0 = 0 \<and> currentPixelInScanline st0 = 0 \<and> rasterScheduled st0 \<and>
     raster_surface st0 = raster_surface st @ [ClearRect])"
  using initializeRasterBuffer_ready[of darkMode drawnLines st]
proof
  assume "initializeRasterBuffer darkMode drawnLines st = Inl NoReturn"
  then show ?thesis unfolding startRaster_def by simp
next
  assume "\<exists>st0. initializeRasterBuffer darkMode drawnLines st = Inr st0 \<and>
     raster_ready (clientWidth st) (clientHeight st) (buffer st0) st0 \<and>
     currentScanline st0 = 0 \<and> currentPixelInScanline st0 = 0 \<and>
     raster_surface st0 = raster_surface st @ [ClearRect]"
  then obtain s where
    "initializeRasterBuffer darkMode drawnLines st = Inr s"
    "raster_ready (clientWidth st) (clientHeight st) (buffer s) s"
    "currentScanline s = 0" "currentPixelInScanline s = 0"
    "raster_surface s = raster_surface st @ [ClearRect]"
    by blast
  then have "\<exists>st0. startRaster darkMode drawnLines st = Inr st0 \<and>
     raster_ready (clientWidth st) (clientHeight st) (buffer st0) st0 \<and>
     currentScanline st0 = 0 \<and> currentPixelInScanline st0 = 0 \<and> rasterScheduled st0 \<and>
     raster_surface st0 = raster_surface st @ [ClearRect]"
    unfolding startRaster_def raster_ready_def
    by (intro exI[of _ "s\<lparr>rasterScheduled := True\<rparr>"]) simp
  then show ?thesis by blast
qed

text \<open>With integer end points in range every segment is rasterized, so the start returns.\<close>

lemma plot_lines_integer_segments:
  assumes "length buf = h" "list_all (\<lambda>row. length row = w) buf" "list_all integer_segment ls"
  shows "\<exists>buf'. plot_lines c w h ls buf = Inr buf' \<and> length buf' = h \<and>
           list_all (\<lambda>row. length row = w) buf'"
  using assms
proof (induction ls arbitrary: buf)
  case Nil
  then show ?case by simp
next
  case (Cons l ls)
  from Cons.prems(3) have il: "integer_segment l" and rest: "list_all integer_segment ls"
    by simp_all
  from il obtain x1 y1 x2 y2 where
    c: "coordinate x1" "coordinate y1" "coordinate x2" "coordinate y2"
    and l: "l = \<lparr>line_x1 = js_int x1, line_y1 = js_int y1, line_x2 = js_int x2,
                 line_y2 = js_int y2\<rparr>"
    unfolding integer_segment_def by blast
  from bresenhamLine_result[OF c] obtain qs where
    "bresenhamLine (js_int x1) (js_int y1) (js_int x2) (js_int y2) = Some qs" by blast
  then obtain ps where ps: "bresenhamLinePixels (line_x1 l) (line_y1 l) (line_x2 l) (line_y2 l)
      (js_int (int w)) (js_int (int h)) = Some ps"
    unfolding l by (simp add: bresenhamLinePixels_filter)
  from plot_pixels_dims[OF Cons.prems(1,2) bresenhamLinePixels_rounded[OF ps], of c] obtain buf' where
    p: "plot_pixels c w h ps buf = Inr buf'" and
    d: "length buf' = h" "list_all (\<lambda>row. length row = w) buf'"
    by blast
  from Cons.IH[OF d rest] ps p show ?case by simp
qed

lemma startRaster_integer_segments:
  assumes "list_all integer_segment drawnLines"
  shows "\<exists>st0. startRaster darkMode drawnLines st = Inr st0"
proof -
  let ?w = "clientWidth st" and ?h = "clientHeight st"
  let ?st' = "clearCanvas (resizeCanvas st)"
  let ?bg = "if darkMode then ''#1f2937'' else ''#f0f2f5''"
  let ?fg = "if darkMode then ''#cbd5e1'' else ''black''"
  have dims: "canvas_width ?st' = ?w" "canvas_height ?st' = ?h"
    unfolding clearCanvas_def resizeCanvas_def by auto
  have b0: "length (replicate ?h (replicate ?w ?bg)) = ?h"
    "list_all (\<lambda>row. length row = ?w) (replicate ?h (replicate ?w ?bg))"
    by (simp_all add: list_all_iff)
  from plot_lines_integer_segments[OF b0 assms, of ?fg] obtain buf' where
    "plot_lines ?fg ?w ?h drawnLines (replicate ?h (replicate ?w ?bg)) = Inr buf'"
    by blast
  then show ?thesis
    unfolding startRaster_def initializeRasterBuffer_def Let_def dims by simp
qed

lemma animateRasterDisplay_ready:
  assumes "raster_ready w h buf st"
  shows "\<exists>st'. animateRasterDisplay isSimulating st = Inr st' \<and> raster_ready w h buf st'"
proof -
  from assms have r: "canvas_width st = w" "canvas_height st = h" "buffer st = buf"
    "length buf = h" "list_all (\<lambda>row. length row = w) buf"
    unfolding raster_ready_def by auto
  have rd: "buffer_read buf (currentScanline st) (currentPixelInScanline st)
      = Inr (buf ! currentScanline st ! currentPixelInScanline st)"
    if "currentScanline st < h" "currentPixelInScanline st < w"
    using that r(4,5) unfolding buffer_read_def by (simp add: list_all_length)
  show ?thesis
    unfolding animateRasterDisplay_def Let_def raster_ready_def
    using r rd by auto
qed

lemma raster_run_ready:
  assumes "raster_ready w h buf st"
  shows "\<exists>st'. raster_run isSimulating k st = Inr st' \<and> raster_ready w h buf st'"
proof (induction k)
  case 0
  with assms show ?case by simp
next
  case (Suc k)
  then obtain sk where sk: "raster_run isSimulating k st = Inr sk" "raster_ready w h buf sk"
    by blast
  from animateRasterDisplay_ready[OF sk(2), of isSimulating] sk show ?case by auto
qed

text \<open>
  The writes and reads of the simulator stay inside the buffer: a start either does not
  return or yields a buffer of \<open>height\<close> rows of \<open>width\<close> cells, and no number of
  simulator steps reads outside it. The second test in \<^verbatim>\<open>initializeRasterBuffer\<close> is
  what keeps the writes inside.
\<close>

lemma raster_accesses_guarded:
  "startRaster darkMode drawnLines st \<noteq> Inl OutOfRange \<and>
   (startRaster darkMode drawnLines st = Inr st0 \<longrightarrow>
      length (buffer st0) = canvas_height st0 \<and>
      list_all (\<lambda>row. length row = canvas_width st0) (buffer st0) \<and>
      (\<exists>sk. raster_run isSimulating k st0 = Inr sk))"
proof -
  from startRaster_ready[of darkMode drawnLines st]
  show ?thesis
  proof
    assume "startRaster darkMode drawnLines st = Inl NoReturn"
    then show ?thesis by simp
  next
    assume "\<exists>s. startRaster darkMode drawnLines st = Inr s \<and>
     raster_ready (clientWidth st) (clientHeight st) (buffer s) s \<and>
     currentScanline s = 0 \<and> currentPixelInScanline s = 0 \<and> rasterScheduled s \<and>
     raster_surface s = raster_surface st @ [ClearRect]"
    then obtain s where s: "startRaster darkMode drawnLines st = Inr s"
      and rdy: "raster_ready (clientWidth st) (clientHeight st) (buffer s) s"
      by blast
    from raster_run_ready[OF rdy, of isSimulating k] obtain sk where
      "raster_run isSimulating k s = Inr sk" by blast
    with s rdy show ?thesis unfolding raster_ready_def by auto
  qed
qed

subsection \<open>Raster simulator: the sweep\<close>

lemma animateRasterDisplay_draw:
  assumes "raster_ready w h buf st" "currentScanline st < h" "currentPixelInScanline st < w"
  shows "animateRasterDisplay True st =
     Inr (st\<lparr>raster_surface := raster_surface st @
                [FillRect (int (currentPixelInScanline st)) (int (currentScanline st))
                   (buf ! currentScanline st ! currentPixelInScanline st) 2],
             rasterInfo := ScanAt (currentPixelInScanline st) (currentScanline st),
             currentPixelInScanline :=
               (if currentPixelInScanline st + 1 \<ge> w then 0 else currentPixelInScanline st + 1),
             currentScanline :=
               (if currentPixelInScanline st + 1 \<ge> w then currentScanline st + 1
                else currentScanline st),
             rasterScheduled := True\<rparr>)"
proof -
  from assms(1) have r: "canvas_width st = w" "canvas_height st = h" "buffer st = buf"
    "length buf = h" "list_all (\<lambda>row. length row = w) buf"
    unfolding raster_ready_def by auto
  have rd: "buffer_read buf (currentScanline st) (currentPixelInScanline st)
      = Inr (buf ! currentScanline st ! currentPixelInScanline st)"
    using assms(2,3) r(4,5) unfolding buffer_read_def by (simp add: list_all_length)
  from assms(2) r(4) have ne: "length buf \<noteq> 0" by simp
  show ?thesis
    unfolding animateRasterDisplay_def Let_def r rd using assms(2,3) ne by simp
qed

lemma animateRasterDisplay_wrap:
  assumes "length (buffer st) \<noteq> 0"
    and "\<not> (currentScanline st < canvas_height st \<and> currentPixelInScanline st < canvas_width st)"
  shows "animateRasterDisplay True st =
     Inr (st\<lparr>currentScanline := 0, currentPixelInScanline := 0,
             raster_surface := raster_surface st @ [ClearRect],
             rasterInfo := RasterDone, rasterScheduled := True\<rparr>)"
  using assms unfolding animateRasterDisplay_def Let_def by auto

lemma raster_cells_drawn:
  assumes ready: "raster_ready w h buf st" and w: "0 < w"
    and start: "currentScanline st = 0" "currentPixelInScanline st = 0" "rasterScheduled st"
    and k: "k \<le> w * h"
  shows "\<exists>sk. raster_run True k st = Inr sk \<and> raster_ready w h buf sk \<and> rasterScheduled sk \<and>
           currentScanline sk = k div w \<and> currentPixelInScanline sk = k mod w \<and>
           raster_surface sk = raster_surface st @ map (cell_draw buf w) [0..<k]"
  using k
proof (induction k)
  case 0
  with ready start show ?case by simp
next
  case (Suc k)
  then have klt: "k < w * h" by simp
  with Suc obtain sk where run: "raster_run True k st = Inr sk"
    and rdy: "raster_ready w h buf sk" and sch: "rasterScheduled sk"
    and cur: "currentScanline sk = k div w" "currentPixelInScanline sk = k mod w"
    and srf: "raster_surface sk = raster_surface st @ map (cell_draw buf w) [0..<k]"
    by auto
  from klt w have row: "k div w < h"
    by (simp add: less_mult_imp_div_less mult.commute)
  from w have col: "k mod w < w" by simp
  let ?sk' = "sk\<lparr>raster_surface := raster_surface sk @
                [FillRect (int (currentPixelInScanline sk)) (int (currentScanline sk))
                   (buf ! currentScanline sk ! currentPixelInScanline sk) 2],
             rasterInfo := ScanAt (currentPixelInScanline sk) (currentScanline sk),
             currentPixelInScanline :=
               (if currentPixelInScanline sk + 1 \<ge> w then 0 else currentPixelInScanline sk + 1),
             currentScanline :=
               (if currentPixelInScanline sk + 1 \<ge> w then currentScanline sk + 1
                else currentScanline sk),
             rasterScheduled := True\<rparr>"
  have tick: "animateRasterDisplay True sk = Inr ?sk'"
    using animateRasterDisplay_draw[OF rdy] row col cur by simp
  have run': "raster_run True (Suc k) st = Inr ?sk'"
    using run sch tick by simp
  have rdy': "raster_ready w h buf ?sk'"
    using rdy unfolding raster_ready_def by simp
  have c1: "currentPixelInScanline ?sk' = Suc k mod w"
    using col cur by (auto simp: mod_Suc)
  have c2: "currentScanline ?sk' = Suc k div w"
    using col cur by (auto simp: div_Suc mod_Suc)
  have s: "raster_surface ?sk' = raster_surface st @ map (cell_draw buf w) [0..<Suc k]"
    using srf cur by (simp add: cell_draw_def)
  from run' rdy' c1 c2 s show ?case by (intro exI[of _ ?sk']) simp
qed

lemma raster_cells_then_wrap:
  assumes ready: "raster_ready w h buf st" and h: "0 < h"
    and start: "currentScanline st = 0" "currentPixelInScanline st = 0" "rasterScheduled st"
  shows "\<exists>se. raster_run True (w * h) st = Inr se \<and>
           raster_surface se = raster_surface st @ map (cell_draw buf w) [0..<w * h] \<and>
           currentScanline se = (if w = 0 then 0 else h) \<and> currentPixelInScanline se = 0 \<and>
           animateRasterDisplay True se =
             Inr (se\<lparr>currentScanline := 0, currentPixelInScanline := 0,
                     raster_surface := raster_surface se @ [ClearRect],
                     rasterInfo := RasterDone, rasterScheduled := True\<rparr>) \<and>
           buffer se = buf"
proof (cases "w = 0")
  case True
  from ready h have ne: "length (buffer st) \<noteq> 0" unfolding raster_ready_def by auto
  from ready True start have "\<not> (currentScanline st < canvas_height st \<and>
      currentPixelInScanline st < canvas_width st)"
    unfolding raster_ready_def by simp
  from animateRasterDisplay_wrap[OF ne this] True start ready show ?thesis
    unfolding raster_ready_def by simp
next
  case False
  then have w: "0 < w" by simp
  from raster_cells_drawn[OF ready w start, of "w * h"] obtain se where
    run: "raster_run True (w * h) st = Inr se" and rdy: "raster_ready w h buf se"
    and cur: "currentScanline se = w * h div w" "currentPixelInScanline se = w * h mod w"
    and srf: "raster_surface se = raster_surface st @ map (cell_draw buf w) [0..<w * h]"
    by auto
  from cur w have cur': "currentScanline se = h" "currentPixelInScanline se = 0" by simp_all
  from rdy h have ne: "length (buffer se) \<noteq> 0" unfolding raster_ready_def by auto
  from rdy cur' have "\<not> (currentScanline se < canvas_height se \<and>
      currentPixelInScanline se < canvas_width se)"
    unfolding raster_ready_def by simp
  from animateRasterDisplay_wrap[OF ne this] run srf cur' False rdy show ?thesis
    unfolding raster_ready_def by simp
qed

text \<open>
  Once a start has returned (as it does when all end points are integers in range), on a
  surface of size \<open>w \<times> h\<close> with \<open>h > 0\<close> (the canvases have a minimum height): the first
  \<open>w * h\<close> steps each draw one buffer cell, cell \<open>j\<close> at column \<open>j mod w\<close> of row
  \<open>j div w\<close>; the next step clears the surface, puts the cursor back to \<open>(0, 0)\<close>, reports
  the end of the frame and schedules a further step, with the buffer unchanged.
\<close>

lemma raster_sweep_after_start:
  assumes "startRaster darkMode drawnLines st = Inr st0" "0 < clientHeight st"
  shows "\<exists>se. raster_run True (clientWidth st * clientHeight st) st0 = Inr se \<and>
            raster_surface se = raster_surface st0 @
              map (cell_draw (buffer st0) (clientWidth st))
                [0..<clientWidth st * clientHeight st] \<and>
            animateRasterDisplay True se =
              Inr (se\<lparr>currentScanline := 0, currentPixelInScanline := 0,
                      raster_surface := raster_surface se @ [ClearRect],
                      rasterInfo := RasterDone, rasterScheduled := True\<rparr>) \<and>
            buffer se = buffer st0"
proof -
  from startRaster_ready[of darkMode drawnLines st] assms(1)
  have rdy: "raster_ready (clientWidth st) (clientHeight st) (buffer st0) st0"
    and start: "currentScanline st0 = 0" "currentPixelInScanline st0 = 0" "rasterScheduled st0"
    by auto
  from raster_cells_then_wrap[OF rdy assms(2) start] show ?thesis by blast
qed

lemma plot_lines_never_returns:
  "plot_lines c w h (half_pixel_segment # ls) buf = Inl NoReturn"
  by (simp add: half_pixel_segment_def bresenhamLinePixels_half_pixel)

lemma edge_segment_pixels:
  "bresenhamLinePixels (Fin (21 / 2)) (Fin (599 / 2)) (Fin (27 / 2)) (Fin (599 / 2))
     (Fin 312) (Fin 300) =
     Some [(Fin 11, Fin 300), (Fin 12, Fin 300), (Fin 13, Fin 300), (Fin 14, Fin 300)]"
  by code_simp

subsection \<open>Bresenham: end points, connectivity and termination\<close>

text \<open>
  Claim C1, as amended. For integers \<open>x0 y0 x1 y1\<close> of magnitude at most \<open>2\<^sup>2\<^sup>8\<close>,
  \<open>bresenhamLine\<close> returns a sequence of at least one pixel whose positions are integer
  points; the sequence starts at \<open>(x0, y0)\<close>, ends at \<open>(x1, y1)\<close>, and consecutive pixels
  differ by at most 1 in \<open>x\<close> and at most 1 in \<open>y\<close>.
\<close>

theorem bresenhamLine_endpoints_connected:
  assumes "coordinate x0" "coordinate y0" "coordinate x1" "coordinate y1"
  shows "\<exists>ps pts. bresenhamLine (js_int x0) (js_int y0) (js_int x1) (js_int y1) = Some ps \<and>
     map position ps = map js_point pts \<and> length ps \<ge> 1 \<and>
     hd pts = (x0, y0) \<and> last pts = (x1, y1) \<and> connected8 pts"
proof -
  from bresenhamLine_result[OF assms] obtain ps pts where
    r: "bresenhamLine (js_int x0) (js_int y0) (js_int x1) (js_int y1) = Some ps"
    and m: "map position ps = map js_point pts" and ne: "pts \<noteq> []"
    and e: "hd pts = (x0, y0)" "last pts = (x1, y1)" "connected8 pts"
    by blast
  from m have "length ps = length pts" by (rule map_eq_imp_length_eq)
  with ne have "length ps \<ge> 1" by (cases pts) auto
  with r m e show ?thesis by blast
qed

theorem bresenhamLine_endpoints_connected_witness:
  "coordinate 0 \<and> coordinate 3 \<and> coordinate 1 \<and>
   (\<exists>ps pts. bresenhamLine (js_int 0) (js_int 0) (js_int 3) (js_int 1) = Some ps \<and>
     map position ps = map js_point pts \<and> length ps \<ge> 1 \<and>
     hd pts = (0, 0) \<and> last pts = (3, 1) \<and> connected8 pts)"
proof -
  have c: "coordinate 0" "coordinate 3" "coordinate 1" by (simp_all add: coordinate_def)
  from bresenhamLine_endpoints_connected[OF c(1) c(1) c(2) c(3)] c show ?thesis by blast
qed

text \<open>
  Claim C1 as stated, for every integer, fails beyond \<open>2\<^sup>5\<^sup>3\<close>, where binary64 no longer
  holds every integer: from \<open>(2\<^sup>5\<^sup>3 + 2, 0)\<close> to \<open>(2\<^sup>5\<^sup>3, 0)\<close> the step \<open>x - 1\<close> rounds to
  \<open>2\<^sup>5\<^sup>3\<close>, so the line is two pixels that are 2 apart.
\<close>

theorem bresenhamLine_gap_beyond_2_53:
  "map_option (map position)
     (bresenhamLine (js_int (2 ^ 53 + 2)) (js_int 0) (js_int (2 ^ 53)) (js_int 0))
     = Some (map js_point [(2 ^ 53 + 2, 0), (2 ^ 53, 0)]) \<and>
   \<not> connected8 [(2 ^ 53 + 2, 0), (2 ^ 53, 0)]"
proof
  show "map_option (map position)
     (bresenhamLine (js_int (2 ^ 53 + 2)) (js_int 0) (js_int (2 ^ 53)) (js_int 0))
     = Some (map js_point [(2 ^ 53 + 2, 0), (2 ^ 53, 0)])"
    by code_simp
  show "\<not> connected8 [(2 ^ 53 + 2, 0), (2 ^ 53, 0)]" by simp
qed


text \<open>
  Claim C8, as amended. For integers of magnitude at most \<open>2\<^sup>2\<^sup>8\<close>, \<open>bresenhamLine\<close>
  leaves its loop, after at most \<open>|x1 - x0| + |y1 - y0| + 1\<close> pixels; a degenerate line is
  the single pixel \<open>(x0, y0)\<close>; horizontal, vertical and diagonal lines are among the
  inputs.
\<close>

theorem bresenhamLine_terminates:
  assumes "coordinate x0" "coordinate y0" "coordinate x1" "coordinate y1"
  shows "(\<exists>ps. bresenhamLine (js_int x0) (js_int y0) (js_int x1) (js_int y1) = Some ps \<and>
            length ps \<le> nat (\<bar>x1 - x0\<bar> + \<bar>y1 - y0\<bar>) + 1) \<and>
   bresenhamLine (js_int x0) (js_int y0) (js_int x0) (js_int y0) =
     Some [\<lparr>px = js_int x0, py = js_int y0,
            info = BresenhamStep (Fin 0) (js_int x0) (js_int y0) (Fin 0)\<rparr>] \<and>
   (\<exists>ps. bresenhamLine (js_int x0) (js_int y0) (js_int x1) (js_int y0) = Some ps) \<and>
   (\<exists>ps. bresenhamLine (js_int x0) (js_int y0) (js_int x0) (js_int y1) = Some ps) \<and>
   (coordinate (x0 + d) \<and> coordinate (y0 + d) \<and> coordinate (y0 - d) \<longrightarrow>
      (\<exists>ps. bresenhamLine (js_int x0) (js_int y0) (js_int (x0 + d)) (js_int (y0 + d)) = Some ps) \<and>
      (\<exists>ps. bresenhamLine (js_int x0) (js_int y0) (js_int (x0 + d)) (js_int (y0 - d)) = Some ps))"
proof -
  have total: "\<exists>ps. bresenhamLine (js_int a) (js_int b) (js_int c) (js_int d) = Some ps \<and>
      length ps \<le> nat (\<bar>c - a\<bar> + \<bar>d - b\<bar>) + 1"
    if "coordinate a" "coordinate b" "coordinate c" "coordinate d" for a b c d
  proof -
    from bresenhamLine_result[OF that] obtain ps pts where
      r: "bresenhamLine (js_int a) (js_int b) (js_int c) (js_int d) = Some ps"
      and m: "map position ps = map js_point pts"
      and l: "length pts \<le> nat (\<bar>c - a\<bar> + \<bar>d - b\<bar>) + 1"
      by blast
    from m have "length ps = length pts" by (rule map_eq_imp_length_eq)
    with r l show ?thesis by simp
  qed
  have point: "bresenhamLine (js_int x0) (js_int y0) (js_int x0) (js_int y0) =
     Some [\<lparr>px = js_int x0, py = js_int y0,
            info = BresenhamStep (Fin 0) (js_int x0) (js_int y0) (Fin 0)\<rparr>]"
    unfolding bresenhamLine_setup[OF assms(1,2) assms(1,2)]
    using bresenhamLine_loop_stop[of x0 y0 "js_int 0" "js_int 0" "js_int (- 1)" "js_int (- 1)"
        "js_int 0" "js_int 0" "[]"]
    by (simp add: js_int_def)
  from total[OF assms] point total[OF assms(1,2,3) assms(2)] total[OF assms(1,2) assms(1) assms(4)]
    total[OF assms(1,2)]
  show ?thesis by blast
qed

theorem bresenhamLine_terminates_witness:
  "coordinate 0 \<and> coordinate 3 \<and> coordinate 1 \<and> coordinate (0 + 3) \<and> coordinate (0 - 3) \<and>
   (\<exists>ps. bresenhamLine (js_int 0) (js_int 0) (js_int 3) (js_int 1) = Some ps \<and>
            length ps \<le> nat (\<bar>3 - 0\<bar> + \<bar>1 - 0\<bar>) + 1) \<and>
   (\<exists>ps. bresenhamLine (js_int 0) (js_int 0) (js_int (0 + 3)) (js_int (0 - 3)) = Some ps)"
proof -
  have c: "coordinate 0" "coordinate 3" "coordinate 1" "coordinate (0 + 3)" "coordinate (0 - 3)"
    by (simp_all add: coordinate_def)
  from bresenhamLine_terminates[OF c(1) c(1) c(2) c(3), of 3] c show ?thesis by blast
qed

text \<open>
  Claim C8 as stated, for every integer, fails beyond \<open>2\<^sup>5\<^sup>3\<close>: from \<open>(2\<^sup>5\<^sup>3, 0)\<close> to
  \<open>(2\<^sup>5\<^sup>3 + 2, 0)\<close> the step \<open>x + 1\<close> rounds back to \<open>2\<^sup>5\<^sup>3\<close>, so \<open>x\<close> never reaches
  \<open>x1\<close> and the loop is never left.
\<close>

theorem bresenhamLine_never_returns_beyond_2_53:
  "bresenhamLine (js_int (2 ^ 53)) (js_int 0) (js_int (2 ^ 53 + 2)) (js_int 0) = None"
  using bresenhamLine_overflow_example by (simp add: js_int_def)

subsection \<open>DDA: the claim\<close>

text \<open>
  Claim C2, as amended. For integers of magnitude at most \<open>2\<^sup>2\<^sup>8\<close>, \<open>ddaLine\<close> emits
  exactly \<open>steps + 1\<close> pixels, where \<open>steps = max |x1 - x0| |y1 - y0|\<close>; a degenerate line
  (\<open>steps = 0\<close>) is the single step at \<open>(x0, y0)\<close>.
\<close>

theorem ddaLine_length:
  assumes "coordinate x0" "coordinate y0" "coordinate x1" "coordinate y1"
  shows "(\<exists>ps. ddaLine (js_int x0) (js_int y0) (js_int x1) (js_int y1) = Some ps \<and>
            length ps = nat (max \<bar>x1 - x0\<bar> \<bar>y1 - y0\<bar>) + 1) \<and>
   ddaLine (js_int x0) (js_int y0) (js_int x0) (js_int y0) =
     Some [\<lparr>px = js_int x0, py = js_int y0, info = DDAStep (Fin 0) (js_int x0) (js_int y0)\<rparr>]"
  using ddaLine_count[OF assms] ddaLine_point[OF assms(1,2)] by blast

theorem ddaLine_length_witness:
  "coordinate 0 \<and> coordinate 3 \<and> coordinate 1 \<and>
   (\<exists>ps. ddaLine (js_int 0) (js_int 0) (js_int 3) (js_int 1) = Some ps \<and> length ps = 4) \<and>
   ddaLine (js_int 0) (js_int 0) (js_int 0) (js_int 0) =
     Some [\<lparr>px = js_int 0, py = js_int 0, info = DDAStep (Fin 0) (js_int 0) (js_int 0)\<rparr>]"
proof -
  have c: "coordinate 0" "coordinate 3" "coordinate 1" by (simp_all add: coordinate_def)
  from ddaLine_length[OF c(1) c(1) c(2) c(3)] c show ?thesis by simp
qed

text \<open>
  Claim C2 as stated, for every integer, fails beyond \<open>2\<^sup>5\<^sup>3\<close>: for the line from \<open>(0, 0)\<close>
  to \<open>(2\<^sup>5\<^sup>3 + 2, 0)\<close> the counter \<open>i\<close> stops at \<open>2\<^sup>5\<^sup>3\<close>, where \<open>i + 1\<close> rounds back to
  \<open>i\<close>, and stays below \<open>steps\<close>: the loop is never left and no list of \<open>steps + 1\<close>
  pixels is returned.
\<close>

theorem ddaLine_never_returns_beyond_2_53:
  "ddaLine (js_int 0) (js_int 0) (js_int (2 ^ 53 + 2)) (js_int 0) = None"
  using ddaLine_overflow_example by (simp add: js_int_def)

subsection \<open>Rejected parameters\<close>

lemma start_request_invalid:
  assumes "invalid_parameters alg c"
  shows "\<exists>msg. start_request alg c = Inl msg"
  using assms unfolding invalid_parameters_def start_request_def
  by (cases alg) auto

lemma startBtn_request_invalid:
  assumes "invalid_parameters alg c"
  shows "\<exists>msg. startBtn_request alg c = Inl msg"
  using assms unfolding invalid_parameters_def startBtn_request_def
  by (cases alg) auto

lemma handleStartVisualization_rejected:
  assumes "start_request (currentAlgorithm st) (coords st) = Inl msg"
  shows "handleStartVisualization st =
           (st\<lparr>canvas := canvas st @ [ClearRect], pixelData := [], currentIndex := 0,
               isAnimating := False, currentPixelInfo := Blank, message := Some msg,
               graphicsAnimationFrameId := None, graphicsTimeoutId := None\<rparr>, None)"
  using assms unfolding handleStartVisualization_def clearGraphicsCanvas_def
  by (simp add: Let_def)

text \<open>
  Claim C3, as amended. When a parameter of the selected algorithm is \<open>NaN\<close>, or the
  circle's radius is not positive, the start handler shows an error message before any
  rasterizer is called: no rasterizer call is issued, \<open>pixelData\<close> is empty and no
  animation starts. The canvas is cleared first, as on every start, and nothing is drawn on
  it. The plain page's checks reject the same inputs.
\<close>

theorem start_rejects_invalid_parameters:
  assumes "invalid_parameters (currentAlgorithm st) (coords st)"
  shows "snd (handleStartVisualization st) = None \<and>
         message (fst (handleStartVisualization st)) \<noteq> None \<and>
         pixelData (fst (handleStartVisualization st)) = [] \<and>
         \<not> isAnimating (fst (handleStartVisualization st)) \<and>
         canvas (fst (handleStartVisualization st)) = canvas st @ [ClearRect] \<and>
         (\<exists>msg. startBtn_request (currentAlgorithm st) (coords st) = Inl msg)"
proof -
  from start_request_invalid[OF assms] obtain msg where
    "start_request (currentAlgorithm st) (coords st) = Inl msg" by blast
  from handleStartVisualization_rejected[OF this] startBtn_request_invalid[OF assms]
  show ?thesis by simp
qed

theorem start_rejects_invalid_parameters_witness:
  "invalid_parameters MidpointCircle
     \<lparr>coord_x0 = Fin 50, coord_y0 = Fin 50, coord_x1 = Fin 200, coord_y1 = Fin 150,
      coord_cx = Fin 250, coord_cy = Fin 250, coord_radius = Fin 0\<rparr> \<and>
   snd (handleStartVisualization
     \<lparr>canvas = [FillRect 3 4 ''black'' 2], pixelData = [], currentIndex = 0, isAnimating = False,
      currentPixelInfo = Blank, message = None, graphicsAnimationFrameId = None,
      graphicsTimeoutId = None,
      coords = \<lparr>coord_x0 = Fin 50, coord_y0 = Fin 50, coord_x1 = Fin 200, coord_y1 = Fin 150,
                coord_cx = Fin 250, coord_cy = Fin 250, coord_radius = Fin 0\<rparr>,
      currentAlgorithm = MidpointCircle, animationDelay = 50\<rparr>) = None"
proof -
  let ?c = "\<lparr>coord_x0 = Fin 50, coord_y0 = Fin 50, coord_x1 = Fin 200, coord_y1 = Fin 150,
      coord_cx = Fin 250, coord_cy = Fin 250, coord_radius = Fin 0\<rparr>"
  let ?st = "\<lparr>canvas = [FillRect 3 4 ''black'' 2], pixelData = [], currentIndex = 0,
      isAnimating = False, currentPixelInfo = Blank, message = None,
      graphicsAnimationFrameId = None, graphicsTimeoutId = None, coords = ?c,
      currentAlgorithm = MidpointCircle, animationDelay = 50\<rparr>"
  have inv: "invalid_parameters MidpointCircle ?c"
    by (simp add: invalid_parameters_def isNaN_def)
  then have "invalid_parameters (currentAlgorithm ?st) (coords ?st)" by simp
  from start_rejects_invalid_parameters[OF this] inv show ?thesis by simp
qed

text \<open>
  Claim C3 as stated fails twice. An infinite coordinate passes the checks of both front
  ends, which test \<open>isNaN\<close> only, and reaches the rasterizer; and a rejected start
  (here a circle of radius 0) has already cleared the canvas, so the surface is changed.
\<close>

theorem start_accepts_infinity_and_clears:
  "start_request Bresenham
     \<lparr>coord_x0 = Fin 0, coord_y0 = Fin 0, coord_x1 = PosInf, coord_y1 = Fin 0,
      coord_cx = Fin 250, coord_cy = Fin 250, coord_radius = Fin 100\<rparr>
     = Inr (CallBresenham (Fin 0) (Fin 0) PosInf (Fin 0)) \<and>
   startBtn_request Bresenham
     \<lparr>coord_x0 = Fin 0, coord_y0 = Fin 0, coord_x1 = PosInf, coord_y1 = Fin 0,
      coord_cx = Fin 250, coord_cy = Fin 250, coord_radius = Fin 100\<rparr>
     = Inr (CallBresenham (Fin 0) (Fin 0) PosInf (Fin 0)) \<and>
   canvas (fst (handleStartVisualization
     \<lparr>canvas = [FillRect 3 4 ''black'' 2], pixelData = [], currentIndex = 0, isAnimating = False,
      currentPixelInfo = Blank, message = None, graphicsAnimationFrameId = None,
      graphicsTimeoutId = None,
      coords = \<lparr>coord_x0 = Fin 50, coord_y0 = Fin 50, coord_x1 = Fin 200, coord_y1 = Fin 150,
                coord_cx = Fin 250, coord_cy = Fin 250, coord_radius = Fin 0\<rparr>,
      currentAlgorithm = MidpointCircle, animationDelay = 50\<rparr>))
     = [FillRect 3 4 ''black'' 2, ClearRect]"
  by (simp add: start_request_def startBtn_request_def isNaN_def handleStartVisualization_def
      clearGraphicsCanvas_def Let_def)

subsection \<open>Midpoint circle: the claim\<close>

text \<open>
  Claim C4, as amended. For a centre and a radius of magnitude at most \<open>2\<^sup>2\<^sup>8\<close> and
  \<open>r > 0\<close>, the positions of \<open>midpointCircle cx cy r\<close> are integer points that form a set
  symmetric under the eight reflections about \<open>(cx, cy)\<close>, and each lies at Euclidean
  distance between \<open>r - 1\<close> and \<open>r + 1\<close> from the centre. The function itself checks
  nothing: for \<open>r \<le> 0\<close> it returns the eight images of \<open>(0, r)\<close>. It is the start
  handlers that refuse a radius \<open>\<le> 0\<close>: they show a message and call no rasterizer.
\<close>

theorem midpointCircle_symmetric_near:
  assumes "coordinate cx" "coordinate cy" "coordinate r"
  shows "(0 < r \<longrightarrow>
      (\<exists>ps pts. midpointCircle (js_int cx) (js_int cy) (js_int r) = Some ps \<and>
         map position ps = map js_point pts \<and>
         symmetric8 cx cy (set pts) \<and>
         (\<forall>q \<in> set pts.
            real_of_int r - 1 \<le> distance cx cy q \<and> distance cx cy q \<le> real_of_int r + 1))) \<and>
   (r \<le> 0 \<longrightarrow>
      (\<exists>ps. midpointCircle (js_int cx) (js_int cy) (js_int r) = Some ps \<and>
         map position ps = map js_point (octants cx cy 0 r))) \<and>
   (currentAlgorithm st = MidpointCircle \<and> js_le (coord_radius (coords st)) (Fin 0) \<longrightarrow>
      snd (handleStartVisualization st) = None \<and>
      message (fst (handleStartVisualization st)) \<noteq> None \<and>
      pixelData (fst (handleStartVisualization st)) = [] \<and>
      (\<exists>msg. startBtn_request MidpointCircle (coords st) = Inl msg))"
proof (intro conjI impI)
  assume r: "0 < r"
  then have r1: "1 \<le> r" by simp
  from midpointCircle_points[OF assms r] obtain ps pts where
    run: "midpointCircle (js_int cx) (js_int cy) (js_int r) = Some ps"
    and m: "map position ps = map js_point pts"
    and near: "list_all (near_circle cx cy r) pts" and sym: "symmetric8 cx cy (set pts)"
    by blast
  have "real_of_int r - 1 \<le> distance cx cy q \<and> distance cx cy q \<le> real_of_int r + 1"
    if "q \<in> set pts" for q
    using near_circle_distance[OF r1, of cx cy q] near that by (auto simp: list_all_iff)
  with run m sym show "\<exists>ps pts. midpointCircle (js_int cx) (js_int cy) (js_int r) = Some ps \<and>
         map position ps = map js_point pts \<and>
         symmetric8 cx cy (set pts) \<and>
         (\<forall>q \<in> set pts.
            real_of_int r - 1 \<le> distance cx cy q \<and> distance cx cy q \<le> real_of_int r + 1)"
    by blast
next
  assume "r \<le> 0"
  from midpointCircle_unchecked[OF assms this]
  show "\<exists>ps. midpointCircle (js_int cx) (js_int cy) (js_int r) = Some ps \<and>
         map position ps = map js_point (octants cx cy 0 r)" .
next
  assume a: "currentAlgorithm st = MidpointCircle \<and> js_le (coord_radius (coords st)) (Fin 0)"
  then have inv: "invalid_parameters (currentAlgorithm st) (coords st)"
    by (simp add: invalid_parameters_def)
  from start_request_invalid[OF inv] obtain msg where
    "start_request (currentAlgorithm st) (coords st) = Inl msg" by blast
  from handleStartVisualization_rejected[OF this]
  show "snd (handleStartVisualization st) = None"
    "message (fst (handleStartVisualization st)) \<noteq> None"
    "pixelData (fst (handleStartVisualization st)) = []"
    by simp_all
  from startBtn_request_invalid[OF inv] a
  show "\<exists>msg. startBtn_request MidpointCircle (coords st) = Inl msg" by simp
qed

lemma js_point_inject: "js_point a = js_point b \<Longrightarrow> a = b"
  by (cases a, cases b) (simp add: js_point_def js_int_def)

lemma midpointCircle_example:
  "js_point (1, 2) \<in> set (positions (midpointCircle (js_int 0) (js_int 0) (js_int 2)))"
  by code_simp

theorem midpointCircle_symmetric_near_witness:
  "coordinate 0 \<and> coordinate 2 \<and> 0 < (2::int) \<and>
   (\<exists>ps pts. midpointCircle (js_int 0) (js_int 0) (js_int 2) = Some ps \<and>
      map position ps = map js_point pts \<and>
      symmetric8 0 0 (set pts) \<and> (1, 2) \<in> set pts \<and> (- 1, - 2) \<in> set pts \<and>
      real_of_int 2 - 1 \<le> distance 0 0 (1, 2) \<and> distance 0 0 (1, 2) \<le> real_of_int 2 + 1) \<and>
   (0::int) \<le> 0 \<and>
   (\<exists>ps. midpointCircle (js_int 0) (js_int 0) (js_int 0) = Some ps \<and>
      map position ps = map js_point (octants 0 0 0 0)) \<and>
   js_le (Fin 0) (Fin 0) \<and>
   snd (handleStartVisualization
     \<lparr>canvas = [], pixelData = [], currentIndex = 0, isAnimating = False,
      currentPixelInfo = Blank, message = None, graphicsAnimationFrameId = None,
      graphicsTimeoutId = None,
      coords = \<lparr>coord_x0 = Fin 50, coord_y0 = Fin 50, coord_x1 = Fin 200, coord_y1 = Fin 150,
                coord_cx = Fin 250, coord_cy = Fin 250, coord_radius = Fin 0\<rparr>,
      currentAlgorithm = MidpointCircle, animationDelay = 50\<rparr>) = None"
proof -
  let ?st = "\<lparr>canvas = [], pixelData = [], currentIndex = 0, isAnimating = False,
      currentPixelInfo = Blank, message = None, graphicsAnimationFrameId = None,
      graphicsTimeoutId = None,
      coords = \<lparr>coord_x0 = Fin 50, coord_y0 = Fin 50, coord_x1 = Fin 200, coord_y1 = Fin 150,
                coord_cx = Fin 250, coord_cy = Fin 250, coord_radius = Fin 0\<rparr>,
      currentAlgorithm = MidpointCircle, animationDelay = 50\<rparr>"
  have c: "coordinate 0" "coordinate 2" by (simp_all add: coordinate_def)
  note two = midpointCircle_symmetric_near[OF c(1) c(1) c(2), of ?st]
  note zero = midpointCircle_symmetric_near[OF c(1) c(1) c(1), of ?st]
  have pos: "0 < (2::int)" and le: "(0::int) \<le> 0" by simp_all
  have bad: "currentAlgorithm ?st = MidpointCircle \<and> js_le (coord_radius (coords ?st)) (Fin 0)"
    by simp
  from two pos obtain ps pts where
    run: "midpointCircle (js_int 0) (js_int 0) (js_int 2) = Some ps"
    and m: "map position ps = map js_point pts"
    and sym: "symmetric8 0 0 (set pts)"
    and dist: "\<forall>q \<in> set pts.
         real_of_int 2 - 1 \<le> distance 0 0 q \<and> distance 0 0 q \<le> real_of_int 2 + 1"
    by blast
  from midpointCircle_example run m have "js_point (1, 2) \<in> js_point ` set pts"
    by (simp add: positions_def)
  then have mem: "(1, 2) \<in> set pts" using js_point_inject by blast
  from sym mem have "set (reflections8 0 0 (1, 2)) \<subseteq> set pts"
    unfolding symmetric8_def by blast
  then have mir: "(- 1, - 2) \<in> set pts" by (simp add: reflections8_def Let_def)
  from dist mem have d: "real_of_int 2 - 1 \<le> distance 0 0 (1, 2)"
    "distance 0 0 (1, 2) \<le> real_of_int 2 + 1"
    by blast+
  from run m sym mem mir d
  have a: "\<exists>ps pts. midpointCircle (js_int 0) (js_int 0) (js_int 2) = Some ps \<and>
      map position ps = map js_point pts \<and>
      symmetric8 0 0 (set pts) \<and> (1, 2) \<in> set pts \<and> (- 1, - 2) \<in> set pts \<and>
      real_of_int 2 - 1 \<le> distance 0 0 (1, 2) \<and> distance 0 0 (1, 2) \<le> real_of_int 2 + 1"
    by blast
  from zero le have b: "\<exists>ps. midpointCircle (js_int 0) (js_int 0) (js_int 0) = Some ps \<and>
      map position ps = map js_point (octants 0 0 0 0)"
    by blast
  from two bad have rej: "snd (handleStartVisualization ?st) = None" by blast
  from c pos a le b rej show ?thesis by simp
qed

text \<open>The circle of radius 5 about \<open>(2\<^sup>5\<^sup>3, 2\<^sup>5\<^sup>3)\<close>, as the code returns it.\<close>

lemma midpointCircle_large_centre:
  "positions (midpointCircle (js_int (2 ^ 53)) (js_int (2 ^ 53)) (js_int 5)) =
     map js_point
     [(2 ^ 53, 2 ^ 53 + 4), (2 ^ 53 + 4, 2 ^ 53),
      (2 ^ 53, 2 ^ 53 + 4), (2 ^ 53 - 5, 2 ^ 53),
      (2 ^ 53, 2 ^ 53 - 5), (2 ^ 53 - 5, 2 ^ 53),
      (2 ^ 53, 2 ^ 53 - 5), (2 ^ 53 + 4, 2 ^ 53),
      (2 ^ 53, 2 ^ 53 + 4), (2 ^ 53 + 4, 2 ^ 53),
      (2 ^ 53 - 1, 2 ^ 53 + 4), (2 ^ 53 - 5, 2 ^ 53),
      (2 ^ 53 - 1, 2 ^ 53 - 5), (2 ^ 53 - 5, 2 ^ 53 - 1),
      (2 ^ 53, 2 ^ 53 - 5), (2 ^ 53 + 4, 2 ^ 53 - 1),
      (2 ^ 53 + 2, 2 ^ 53 + 4), (2 ^ 53 + 4, 2 ^ 53 + 2),
      (2 ^ 53 - 2, 2 ^ 53 + 4), (2 ^ 53 - 5, 2 ^ 53 + 2),
      (2 ^ 53 - 2, 2 ^ 53 - 5), (2 ^ 53 - 5, 2 ^ 53 - 2),
      (2 ^ 53 + 2, 2 ^ 53 - 5), (2 ^ 53 + 4, 2 ^ 53 - 2),
      (2 ^ 53 + 4, 2 ^ 53 + 4), (2 ^ 53 + 4, 2 ^ 53 + 4),
      (2 ^ 53 - 3, 2 ^ 53 + 4), (2 ^ 53 - 4, 2 ^ 53 + 4),
      (2 ^ 53 - 3, 2 ^ 53 - 4), (2 ^ 53 - 4, 2 ^ 53 - 3),
      (2 ^ 53 + 4, 2 ^ 53 - 4), (2 ^ 53 + 4, 2 ^ 53 - 3),
      (2 ^ 53 + 4, 2 ^ 53 + 4), (2 ^ 53 + 4, 2 ^ 53 + 4),
      (2 ^ 53 - 4, 2 ^ 53 + 4), (2 ^ 53 - 3, 2 ^ 53 + 4),
      (2 ^ 53 - 4, 2 ^ 53 - 3), (2 ^ 53 - 3, 2 ^ 53 - 4),
      (2 ^ 53 + 4, 2 ^ 53 - 3), (2 ^ 53 + 4, 2 ^ 53 - 4)]"
  by code_simp

text \<open>
  Claim C4 as stated fails twice. \<open>midpointCircle\<close> does not fail for \<open>r \<le> 0\<close>: at
  radius 0 it returns eight pixels, all at the centre. And beyond \<open>2\<^sup>5\<^sup>3\<close> the sums
  \<open>cx + px\<close> are rounded: with the centre at \<open>(2\<^sup>5\<^sup>3, 2\<^sup>5\<^sup>3)\<close> and radius 5 the pixel
  \<open>(cx + 4, cy + 4)\<close> is emitted (\<open>cx + 3\<close> rounds to \<open>cx + 4\<close>), and its image under the
  reflection through the centre, \<open>(cx - 4, cy - 4)\<close>, is not.
\<close>

theorem midpointCircle_unchecked_and_asymmetric:
  "map_option (map position) (midpointCircle (js_int 0) (js_int 0) (js_int 0))
     = Some (replicate 8 (js_point (0, 0))) \<and>
   js_point (2 ^ 53 + 4, 2 ^ 53 + 4)
     \<in> set (positions (midpointCircle (js_int (2 ^ 53)) (js_int (2 ^ 53)) (js_int 5))) \<and>
   js_point (2 ^ 53 - 4, 2 ^ 53 - 4)
     \<notin> set (positions (midpointCircle (js_int (2 ^ 53)) (js_int (2 ^ 53)) (js_int 5))) \<and>
   (2 ^ 53 - 4, 2 ^ 53 - 4) \<in> set (reflections8 (2 ^ 53) (2 ^ 53) (2 ^ 53 + 4, 2 ^ 53 + 4))"
proof (intro conjI)
  show "map_option (map position) (midpointCircle (js_int 0) (js_int 0) (js_int 0))
     = Some (replicate 8 (js_point (0, 0)))"
    by code_simp
  show "js_point (2 ^ 53 + 4, 2 ^ 53 + 4)
     \<in> set (positions (midpointCircle (js_int (2 ^ 53)) (js_int (2 ^ 53)) (js_int 5)))"
    unfolding midpointCircle_large_centre by (simp add: js_point_def js_int_def)
  show "js_point (2 ^ 53 - 4, 2 ^ 53 - 4)
     \<notin> set (positions (midpointCircle (js_int (2 ^ 53)) (js_int (2 ^ 53)) (js_int 5)))"
    unfolding midpointCircle_large_centre by (simp add: js_point_def js_int_def)
  show "(2 ^ 53 - 4, 2 ^ 53 - 4) \<in> set (reflections8 (2 ^ 53) (2 ^ 53) (2 ^ 53 + 4, 2 ^ 53 + 4))"
    by (simp add: reflections8_def Let_def)
qed

subsection \<open>The two Bresenham implementations\<close>



lemma bresenhamLinePixels_clipped_example:
  "bresenhamLinePixels (js_int (- 2)) (js_int 0) (js_int 3) (js_int 1) (js_int 3) (js_int 1)
     = Some [js_point (0, 0)]"
  by code_simp

subsection \<open>Raster simulator: the claims\<close>

text \<open>
  Claim C5 against the code. The display file holds a segment whose end points differ by
  half a pixel, from \<open>(3, 7)\<close> to \<open>(3.5, 7)\<close>. \<open>bresenhamLinePixels\<close> steps \<open>x\<close> by 1 from
  3 and leaves its loop only when \<open>x\<close> is equal to 3.5, so it never returns; the start of
  the simulation, which rasterizes every segment into the buffer first, never returns
  either, whatever the canvas and whatever other segments follow. No cell is drawn and
  no frame completes.
\<close>

theorem raster_start_never_returns:
  "startRaster darkMode (half_pixel_segment # drawnLines) st = Inl NoReturn"
  unfolding startRaster_def initializeRasterBuffer_def Let_def plot_lines_never_returns
  by simp

text \<open>
  Claim C9 against the code. \<open>bresenhamLinePixels\<close> tests \<open>x\<close> and \<open>y\<close> against the bounds
  and pushes \<^verbatim>\<open>Math.round(x)\<close> and \<^verbatim>\<open>Math.round(y)\<close>. For the segment from
  \<open>(10.5, 299.5)\<close> to \<open>(13.5, 299.5)\<close> on the 312 by 300 canvas every pixel it returns has
  \<open>y = 300\<close>, the height of the canvas, which is outside the bounds. The second test in
  \<^verbatim>\<open>initializeRasterBuffer\<close> drops these pixels, so the buffer keeps its background.
\<close>

theorem bresenhamLinePixels_pushes_outside_bounds:
  "bresenhamLinePixels (line_x1 edge_segment) (line_y1 edge_segment) (line_x2 edge_segment)
     (line_y2 edge_segment) (js_int 312) (js_int 300)
     = Some [(Fin 11, Fin 300), (Fin 12, Fin 300), (Fin 13, Fin 300), (Fin 14, Fin 300)] \<and>
   \<not> in_bounds (js_int 312) (js_int 300) (Fin 11, Fin 300) \<and>
   startRaster False [edge_segment] raster_example =
     Inr (raster_example\<lparr>canvas_width := 312, canvas_height := 300,
            raster_surface := [ClearRect],
            buffer := replicate 300 (replicate 312 ''#f0f2f5''),
            rasterScheduled := True\<rparr>)"
proof (intro conjI)
  show px: "bresenhamLinePixels (line_x1 edge_segment) (line_y1 edge_segment) (line_x2 edge_segment)
     (line_y2 edge_segment) (js_int 312) (js_int 300)
     = Some [(Fin 11, Fin 300), (Fin 12, Fin 300), (Fin 13, Fin 300), (Fin 14, Fin 300)]"
    using edge_segment_pixels by (simp add: edge_segment_def js_int_def)
  show "\<not> in_bounds (js_int 312) (js_int 300) (Fin 11, Fin 300)"
    by (simp add: in_bounds_def js_int_def)
  have i: "js_int (int 312) = js_int 312" "js_int (int 300) = js_int 300" by simp_all
  have "plot_lines ''black'' 312 300 [edge_segment] buf = Inr buf" for buf
    by (simp add: px i) (simp add: js_int_def)
  then show "startRaster False [edge_segment] raster_example =
     Inr (raster_example\<lparr>canvas_width := 312, canvas_height := 300,
            raster_surface := [ClearRect],
            buffer := replicate 300 (replicate 312 ''#f0f2f5''),
            rasterScheduled := True\<rparr>)"
    unfolding startRaster_def initializeRasterBuffer_def Let_def
    by (simp add: raster_example_def resizeCanvas_def clearCanvas_def)
qed

subsection \<open>Random-scan simulator: the cycle through the display file\<close>

lemma highlights_append: "highlights (a @ b) = highlights a @ highlights b"
  by (induction a rule: highlights.induct) auto

lemma highlights_faded: "highlights (map (\<lambda>l. StrokeLine l c 2) ls) = []"
  by (induction ls) auto

lemma animateRandomDisplay_step:
  assumes "currentLineIndex st < length drawnLines"
  shows "animateRandomDisplay True darkMode drawnLines st =
     st\<lparr>random_surface := random_surface st @ [ClearRect] @
              map (\<lambda>l. StrokeLine l
                     (if darkMode then ''rgba(203, 213, 225, 0.8)'' else ''rgba(0, 0, 0, 0.8)'') 2)
                drawnLines @
              [StrokeLine (drawnLines ! currentLineIndex st)
                 (if darkMode then ''#fde047'' else ''#eab308'') 3],
         currentLineIndex := Suc (currentLineIndex st) mod length drawnLines,
         randomInfo := (if Suc (currentLineIndex st) mod length drawnLines = 0 then RandomDone
                        else TracingLine (currentLineIndex st + 1)
                               (drawnLines ! currentLineIndex st)),
         randomScheduled := True\<rparr>"
proof -
  from assms have ne: "length drawnLines \<noteq> 0" by auto
  show ?thesis
  proof (cases "Suc (currentLineIndex st) = length drawnLines")
    case True
    then have a: "currentLineIndex st + 1 \<ge> length drawnLines"
      and m: "Suc (currentLineIndex st) mod length drawnLines = 0" by simp_all
    show ?thesis
      unfolding animateRandomDisplay_def Let_def m
      by (simp only: ne assms a if_True if_False simp_thms append_assoc)
  next
    case False
    with assms have lt: "\<not> currentLineIndex st + 1 \<ge> length drawnLines" by simp
    then have m: "Suc (currentLineIndex st) mod length drawnLines = Suc (currentLineIndex st)"
      by simp
    have nz: "Suc (currentLineIndex st) \<noteq> 0" by simp
    show ?thesis
      unfolding animateRandomDisplay_def Let_def m
      by (simp only: ne assms lt nz if_True if_False simp_thms append_assoc Suc_eq_plus1) simp
  qed
qed

lemma random_run_cycle:
  assumes "currentLineIndex st < length drawnLines" "randomScheduled st"
  shows "currentLineIndex (random_run True darkMode drawnLines k st)
           = (currentLineIndex st + k) mod length drawnLines \<and>
         randomScheduled (random_run True darkMode drawnLines k st) \<and>
         highlights (random_surface (random_run True darkMode drawnLines k st))
           = highlights (random_surface st) @
             map (\<lambda>j. drawnLines ! ((currentLineIndex st + j) mod length drawnLines)) [0..<k]"
proof (induction k)
  case 0
  with assms show ?case by simp
next
  case (Suc k)
  let ?n = "length drawnLines"
  let ?sk = "random_run True darkMode drawnLines k st"
  from assms(1) have n: "0 < ?n" by (cases drawnLines) simp_all
  from Suc have idx: "currentLineIndex ?sk = (currentLineIndex st + k) mod ?n"
    and sch: "randomScheduled ?sk"
    and hl: "highlights (random_surface ?sk) = highlights (random_surface st) @
             map (\<lambda>j. drawnLines ! ((currentLineIndex st + j) mod ?n)) [0..<k]"
    by auto
  from idx n have lt: "currentLineIndex ?sk < ?n" by simp
  have run: "random_run True darkMode drawnLines (Suc k) st =
      animateRandomDisplay True darkMode drawnLines ?sk"
    using sch by (simp add: Let_def)
  note step = animateRandomDisplay_step[OF lt, of darkMode]
  have i': "currentLineIndex (random_run True darkMode drawnLines (Suc k) st)
      = (currentLineIndex st + Suc k) mod ?n"
    unfolding run step using idx by (simp add: mod_Suc_eq)
  have s': "randomScheduled (random_run True darkMode drawnLines (Suc k) st)"
    unfolding run step by simp
  have h': "highlights (random_surface (random_run True darkMode drawnLines (Suc k) st))
      = highlights (random_surface st) @
        map (\<lambda>j. drawnLines ! ((currentLineIndex st + j) mod ?n)) [0..<Suc k]"
    unfolding run step using hl idx by (simp add: highlights_append highlights_faded)
  from i' s' h' show ?case by blast
qed

lemma random_run_report:
  assumes "currentLineIndex st < length drawnLines" "randomScheduled st"
  shows "(randomInfo (random_run True darkMode drawnLines (Suc k) st) = RandomDone)
           = ((currentLineIndex st + Suc k) mod length drawnLines = 0)"
proof -
  let ?n = "length drawnLines"
  let ?sk = "random_run True darkMode drawnLines k st"
  from assms(1) have n: "0 < ?n" by (cases drawnLines) simp_all
  from random_run_cycle[OF assms, of darkMode k]
  have idx: "currentLineIndex ?sk = (currentLineIndex st + k) mod ?n"
    and sch: "randomScheduled ?sk" by auto
  from idx n have lt: "currentLineIndex ?sk < ?n" by simp
  have run: "random_run True darkMode drawnLines (Suc k) st =
      animateRandomDisplay True darkMode drawnLines ?sk"
    using sch by (simp add: Let_def)
  show ?thesis
    unfolding run animateRandomDisplay_step[OF lt, of darkMode] using idx
    by (simp add: mod_Suc_eq)
qed

lemma rotate_as_map:
  assumes "i < length xs"
  shows "map (\<lambda>j. xs ! ((i + j) mod length xs)) [0..<length xs] = rotate i xs"
  by (intro nth_equalityI) (simp_all add: nth_rotate add.commute)

lemma index_returns_iff:
  fixes i k n :: nat
  assumes "i < n"
  shows "((i + k) mod n = i) = (n dvd k)"
proof
  assume "n dvd k"
  then obtain q where "k = n * q" by (auto simp: dvd_def)
  with assms show "(i + k) mod n = i" by simp
next
  assume e: "(i + k) mod n = i"
  define r where "r = k mod n"
  have r: "r < n" using assms unfolding r_def by simp
  have "(i + r) mod n = i" using e unfolding r_def by (simp add: mod_add_right_eq)
  have "r = 0"
  proof (cases "i + r < n")
    case True
    then have "(i + r) mod n = i + r" by simp
    with \<open>(i + r) mod n = i\<close> show ?thesis by simp
  next
    case False
    with r assms have "(i + r) mod n = i + r - n"
      by (simp add: mod_if)
    with \<open>(i + r) mod n = i\<close> False r show ?thesis by simp
  qed
  then show "n dvd k" unfolding r_def by (simp add: dvd_eq_mod_eq_0)
qed

text \<open>
  Claim C6. For a non-empty display file of \<open>n\<close> segments and an index inside it, the
  index after \<open>k\<close> steps is \<open>(i + k) mod n\<close> and is back at its start exactly when \<open>n\<close>
  divides \<open>k\<close>; each step highlights the segment at the index it finds; the end of a
  refresh is reported exactly by the steps that wrap the index to 0; and the \<open>n\<close> steps
  of one cycle highlight every segment once (the display file, rotated to the start
  index). The simulator keeps scheduling steps.
\<close>

theorem random_scan_cycle:
  assumes "drawnLines \<noteq> []" "currentLineIndex st < length drawnLines" "randomScheduled st"
  shows "currentLineIndex (random_run True darkMode drawnLines k st)
           = (currentLineIndex st + k) mod length drawnLines \<and>
         (currentLineIndex (random_run True darkMode drawnLines k st) = currentLineIndex st)
           = (length drawnLines dvd k) \<and>
         randomScheduled (random_run True darkMode drawnLines k st) \<and>
         highlights (random_surface (random_run True darkMode drawnLines (Suc k) st))
           = highlights (random_surface (random_run True darkMode drawnLines k st)) @
             [drawnLines ! currentLineIndex (random_run True darkMode drawnLines k st)] \<and>
         (randomInfo (random_run True darkMode drawnLines (Suc k) st) = RandomDone)
           = (currentLineIndex (random_run True darkMode drawnLines (Suc k) st) = 0) \<and>
         highlights (random_surface (random_run True darkMode drawnLines (length drawnLines) st))
           = highlights (random_surface st) @ rotate (currentLineIndex st) drawnLines"
proof -
  note c = random_run_cycle[OF assms(2,3), of darkMode]
  have 1: "currentLineIndex (random_run True darkMode drawnLines k st)
           = (currentLineIndex st + k) mod length drawnLines"
    using c[of k] by simp
  have 2: "(currentLineIndex (random_run True darkMode drawnLines k st) = currentLineIndex st)
           = (length drawnLines dvd k)"
    unfolding 1 using index_returns_iff[OF assms(2)] .
  have 3: "randomScheduled (random_run True darkMode drawnLines k st)"
    using c[of k] by simp
  have 4: "highlights (random_surface (random_run True darkMode drawnLines (Suc k) st))
           = highlights (random_surface (random_run True darkMode drawnLines k st)) @
             [drawnLines ! currentLineIndex (random_run True darkMode drawnLines k st)]"
    using c[of k] c[of "Suc k"] by simp
  have 5: "(randomInfo (random_run True darkMode drawnLines (Suc k) st) = RandomDone)
           = (currentLineIndex (random_run True darkMode drawnLines (Suc k) st) = 0)"
    using random_run_report[OF assms(2,3), of darkMode k] c[of "Suc k"] by simp
  have 6: "highlights (random_surface (random_run True darkMode drawnLines (length drawnLines) st))
           = highlights (random_surface st) @ rotate (currentLineIndex st) drawnLines"
    using c[of "length drawnLines"] rotate_as_map[OF assms(2)] by simp
  from 1 2 3 4 5 6 show ?thesis by blast
qed


theorem random_scan_cycle_witness:
  "example_display_file \<noteq> [] \<and>
   currentLineIndex random_example < length example_display_file \<and>
   randomScheduled random_example \<and>
   currentLineIndex (random_run True False example_display_file 2 random_example) = 0 \<and>
   randomInfo (random_run True False example_display_file 2 random_example) = RandomDone \<and>
   highlights (random_surface (random_run True False example_display_file 2 random_example))
     = example_display_file"
proof -
  have ne: "example_display_file \<noteq> []" by (simp add: example_display_file_def)
  have len: "length example_display_file = 2" by (simp add: example_display_file_def)
  have idx: "currentLineIndex random_example < length example_display_file"
    by (simp add: random_example_def len)
  have sch: "randomScheduled random_example" by (simp add: random_example_def)
  note one = random_scan_cycle[OF ne idx sch, of False 1]
  note two = random_scan_cycle[OF ne idx sch, of False 2]
  have start: "currentLineIndex random_example = 0" "random_surface random_example = []"
    by (simp_all add: random_example_def)
  from two have "currentLineIndex (random_run True False example_display_file 2 random_example)
      = (currentLineIndex random_example + 2) mod length example_display_file"
    by blast
  then have i2: "currentLineIndex (random_run True False example_display_file 2 random_example) = 0"
    unfolding len start by simp
  from one have wrap: "(randomInfo (random_run True False example_display_file (Suc 1) random_example)
      = RandomDone)
      = (currentLineIndex (random_run True False example_display_file (Suc 1) random_example) = 0)"
    by blast
  have s: "Suc 1 = 2" by simp
  from wrap i2 have r2: "randomInfo (random_run True False example_display_file 2 random_example)
      = RandomDone"
    unfolding s by blast
  from two have "highlights (random_surface
      (random_run True False example_display_file (length example_display_file) random_example))
      = highlights (random_surface random_example) @
        rotate (currentLineIndex random_example) example_display_file"
    by blast
  then have h2: "highlights (random_surface
      (random_run True False example_display_file 2 random_example)) = example_display_file"
    unfolding len start by simp
  from ne idx sch i2 r2 h2 show ?thesis by blast
qed

subsection \<open>Cancelling a playback on the plain page\<close>

text \<open>
  Claim C7 against the plain page. Start is clicked for the line from \<open>(0, 0)\<close> to
  \<open>(3, 1)\<close>; the first step is drawn and a timeout is set for the next. Clear is clicked
  before the timeout runs. \<open>clearCanvas\<close> cancels only a pending frame request, and the
  id of the timeout was never kept, so the timeout stays pending; when it runs it
  requests a frame, and that frame calls \<open>animateVisualization\<close>, which reports the
  completion of the cleared run.
\<close>

theorem stale_timeout_reports_completion_after_clear:
  "bresenhamLine (Fin 0) (Fin 0) (Fin 3) (Fin 1) = Some line_example \<and>
   pending_timeouts (startBtn_play line_example player_example) = [1] \<and>
   pending_timeouts (html_clearCanvas (startBtn_play line_example player_example)) = [1] \<and>
   html_info (html_clearCanvas (startBtn_play line_example player_example)) = PanelBlank \<and>
   html_info (frame_fires 2 (timeout_fires 1
      (html_clearCanvas (startBtn_play line_example player_example)))) = PanelDone"
  by code_simp

text \<open>
  The same timeout after a restart instead of a clear: it joins the new run, whose
  second pixel it draws, and two timeouts are pending from then on.
\<close>

lemma stale_timeout_joins_restarted_run:
  "html_canvas (frame_fires 3 (timeout_fires 1
      (startBtn_play line_example (startBtn_play line_example player_example))))
     = [ClearRect, ClearRect, FillRect (Fin 0) (Fin 0) ''#ef4444'' 4, ClearRect,
        FillRect (Fin 0) (Fin 0) ''#ef4444'' 4, FillRect (Fin 0) (Fin 0) ''black'' 2,
        FillRect (Fin 1) (Fin 0) ''#ef4444'' 4] \<and>
   pending_timeouts (frame_fires 3 (timeout_fires 1
      (startBtn_play line_example (startBtn_play line_example player_example)))) = [2, 4]"
  by code_simp

end
